theory Spec2Isabelle
  imports Main "HOL-Library.AList" "HOL-Library.Multiset"
begin

section \<open>Python values shared by the models\<close>

text \<open>
  Exceptions of the Python source are values: every function that can raise returns
  \<open>py_error + 'a\<close>, with \<open>Inl\<close> the exception.
\<close>

datatype py_error =
  KeyError | IndexError | ValueError | TypeError | AssertionError
  | NotImplementedError | FileNotFoundError | UnpicklingError

text \<open>
  A Python \<open>dict\<close> (and an \<open>OrderedDict\<close>) keeps its keys in insertion order, and
  the order is observable in \<open>ComposedVocab.unit2id\<close>, so a dict is an association list
  with distinct keys: \<open>map_of\<close> reads it, \<open>AList.update\<close> is \<open>d[k] = v\<close> (in place for
  a key that is present, appended otherwise).
\<close>

type_synonym ('k, 'v) dict = "('k \<times> 'v) list"

definition dict_in :: "'k \<Rightarrow> ('k, 'v) dict \<Rightarrow> bool" where
  "dict_in k d = (map_of d k \<noteq> None)"

definition dict_getitem :: "('k, 'v) dict \<Rightarrow> 'k \<Rightarrow> py_error + 'v" where
  "dict_getitem d k = (case map_of d k of None \<Rightarrow> Inl KeyError | Some v \<Rightarrow> Inr v)"

text \<open>\<open>{w: i for i, w in enumerate(xs)}\<close>: a later occurrence of a key overwrites.\<close>

definition enumerate_dict :: "'a list \<Rightarrow> ('a, nat) dict" where
  "enumerate_dict xs = fold (\<lambda>(i, w) d. AList.update w i d) (enumerate 0 xs) []"

text \<open>\<open>xs[i]\<close> on a Python list: a negative index counts from the end.\<close>

definition list_getitem :: "'a list \<Rightarrow> int \<Rightarrow> py_error + 'a" where
  "list_getitem xs i =
     (if 0 \<le> i \<and> i < int (length xs) then Inr (xs ! nat i)
      else if i < 0 \<and> - int (length xs) \<le> i then Inr (xs ! nat (int (length xs) + i))
      else Inl IndexError)"

section \<open>models/common/vocab.py: Vocab\<close>

definition PAD :: string where "PAD = ''<PAD>''"
definition PAD_ID :: nat where "PAD_ID = 0"
definition VOCAB_PREFIX :: "string list" where "VOCAB_PREFIX = [PAD]"

text \<open>The unit that \<open>Vocab.unit2id\<close> falls back to, written as a literal in the source.\<close>

definition UNK :: string where "UNK = ''<UNK>''"

record vocab =
  filename :: string
  id2unit_tbl :: "string list"
  unit2id_tbl :: "(string, nat) dict"

definition normalize_unit :: "string \<Rightarrow> string" where
  "normalize_unit unit = unit"

definition unit2id :: "vocab \<Rightarrow> string \<Rightarrow> py_error + nat" where
  "unit2id V unit =
     (let u = normalize_unit unit
      in if dict_in u (unit2id_tbl V) then dict_getitem (unit2id_tbl V) u
         else dict_getitem (unit2id_tbl V) UNK)"

definition id2unit :: "vocab \<Rightarrow> int \<Rightarrow> py_error + string" where
  "id2unit V i = list_getitem (id2unit_tbl V) i"

definition vocab_len :: "vocab \<Rightarrow> nat" where
  "vocab_len V = length (id2unit_tbl V)"

definition vocab_contains :: "vocab \<Rightarrow> string \<Rightarrow> bool" where
  "vocab_contains V key = dict_in key (unit2id_tbl V)"

text \<open>
  Modelled from the spec: \<open>Vocab.build_vocab\<close> raises \<open>NotImplementedError\<close> in the
  base class and the subclasses that implement it (\<open>models.mwt.vocab\<close>,
  \<open>models.lemma.vocab\<close>) are not among the sources. The data model of the
  specification says what a built vocabulary holds: an ordered sequence of units with
  unique keys, the reverse mapping of that sequence, the reserved \<open>PAD\<close> unit at id 0
  and a reserved \<open>UNK\<close> unit.
\<close>

definition built :: "vocab \<Rightarrow> bool" where
  "built V =
     (distinct (id2unit_tbl V)
      \<and> unit2id_tbl V = enumerate_dict (id2unit_tbl V)
      \<and> take 1 (id2unit_tbl V) = [PAD]
      \<and> UNK \<in> set (id2unit_tbl V))"

definition example_vocab :: vocab where
  "example_vocab =
     \<lparr>filename = ''en.vocab'',
      id2unit_tbl = [PAD, UNK, ''a'', ''b''],
      unit2id_tbl = enumerate_dict [PAD, UNK, ''a'', ''b'']\<rparr>"

subsection \<open>Vocab.save and Vocab.load\<close>

text \<open>
  \<open>pickle\<close> is a library outside the repository. The two objects a vocabulary
  pickles are a list of units and a dict from units to ids; \<open>pdump\<close> gives the bytes
  that \<open>pickle.dump\<close> writes for an object, and \<open>pload\<close> reads one object from the
  front of a stream and returns it with the rest of the stream, as \<open>pickle.load\<close> does
  on an open file. A file system maps a file name to the content of the file.
\<close>

datatype pyobj = PyList "string list" | PyDict "(string, nat) dict"

record 'b pickle =
  pdump :: "pyobj \<Rightarrow> 'b list"
  pload :: "'b list \<Rightarrow> (pyobj \<times> 'b list) option"

type_synonym 'b files = "string \<Rightarrow> 'b list option"

text \<open>\<open>open(self.filename, 'wb')\<close> replaces the file; the two dumps follow each other.\<close>

definition save :: "'b pickle \<Rightarrow> vocab \<Rightarrow> 'b files \<Rightarrow> 'b files" where
  "save P V fs =
     fs(filename V \<mapsto> pdump P (PyList (id2unit_tbl V)) @ pdump P (PyDict (unit2id_tbl V)))"

text \<open>
  \<open>load\<close> fills the two tables of the vocabulary object \<open>V\<close> it is called on from
  the file of that object. A missing file and a stream that does not hold a list
  followed by a dict are errors.
\<close>

definition load :: "'b pickle \<Rightarrow> vocab \<Rightarrow> 'b files \<Rightarrow> py_error + vocab" where
  "load P V fs =
     (case fs (filename V) of
        None \<Rightarrow> Inl FileNotFoundError
      | Some bs \<Rightarrow>
          (case pload P bs of
             Some (PyList us, rest) \<Rightarrow>
               (case pload P rest of
                  Some (PyDict d, rest') \<Rightarrow> Inr (V\<lparr>id2unit_tbl := us, unit2id_tbl := d\<rparr>)
                | _ \<Rightarrow> Inl UnpicklingError)
           | _ \<Rightarrow> Inl UnpicklingError))"

text \<open>
  What the model asks of \<open>pickle\<close>: an object that was dumped is read back as it was,
  and the read stops where the dump ended.
\<close>

definition pickle_roundtrip :: "'b pickle \<Rightarrow> bool" where
  "pickle_roundtrip P = (\<forall>x rest. pload P (pdump P x @ rest) = Some (x, rest))"

text \<open>A pickle for the examples: the stream is the sequence of the objects themselves.\<close>

definition object_pickle :: "pyobj pickle" where
  "object_pickle =
     \<lparr>pdump = (\<lambda>x. [x]),
      pload = (\<lambda>bs. case bs of [] \<Rightarrow> None | x # rest \<Rightarrow> Some (x, rest))\<rparr>"

section \<open>models/common/vocab.py: ComposedVocab\<close>

text \<open>
  \<open>s.split(sep)\<close> for a separator that is not empty: the occurrences of \<open>sep\<close> are
  found from the left and do not overlap; \<open>acc\<close> is the part read so far. The three
  calls of the source have separators \<open>self.sep\<close> (in the branch where it is not
  empty), \<open>'='\<close> and \<open>','\<close>, so the \<open>ValueError\<close> of an empty separator does not
  occur.
\<close>

function split_from :: "string \<Rightarrow> string \<Rightarrow> string \<Rightarrow> string list" where
  "split_from sp acc [] = [acc]"
| "split_from sp acc (c # cs) =
     (if sp \<noteq> [] \<and> take (length sp) (c # cs) = sp
      then acc # split_from sp [] (drop (length sp) (c # cs))
      else split_from sp (acc @ [c]) cs)"
  by pat_completeness auto
termination
  by (relation "measure (\<lambda>(sp, acc, s). length s)") auto

definition str_split :: "string \<Rightarrow> string \<Rightarrow> string list" where
  "str_split s sp = split_from sp [] s"

text \<open>
  The keys of the composed tables are positions (positional mode) or attribute names
  (keyed mode); \<open>unit2parts\<close> returns a list in the first mode and a dict in the
  second.
\<close>

datatype field_key = Idx nat | Name string

datatype parts = PartList "string list" | PartDict "(field_key, string list) dict"

text \<open>A list comprehension whose element expression can raise stops at the first error.\<close>

fun list_comp :: "('a \<Rightarrow> py_error + 'b) \<Rightarrow> 'a list \<Rightarrow> py_error + 'b list" where
  "list_comp f [] = Inr []"
| "list_comp f (x # xs) =
     (case f x of
        Inl e \<Rightarrow> Inl e
      | Inr y \<Rightarrow> (case list_comp f xs of Inl e \<Rightarrow> Inl e | Inr ys \<Rightarrow> Inr (y # ys)))"

text \<open>\<open>for x, y in parts\<close>: unpacking an element that has not exactly two items raises.\<close>

fun unpack_pair :: "string list \<Rightarrow> py_error + (string \<times> string)" where
  "unpack_pair [x, y] = Inr (x, y)"
| "unpack_pair _ = Inl ValueError"

text \<open>\<open>dict(pairs)\<close>: a later pair with the same key overwrites the value in place.\<close>

definition dict_of_pairs :: "('k \<times> 'v) list \<Rightarrow> ('k, 'v) dict" where
  "dict_of_pairs ps = fold (\<lambda>(k, v) d. AList.update k v d) ps []"

definition unit2parts :: "string \<Rightarrow> bool \<Rightarrow> string \<Rightarrow> py_error + parts" where
  "unit2parts sp kd unit =
     (let ps = (if sp = [] then map (\<lambda>x. [x]) unit else str_split unit sp)
      in if kd then
           (if length ps = 1 \<and> ps ! 0 = ''_'' then Inr (PartDict [])
            else (case list_comp unpack_pair (map (\<lambda>x. str_split x ''='') ps) of
                    Inl e \<Rightarrow> Inl e
                  | Inr xys \<Rightarrow>
                      Inr (PartDict (dict_of_pairs
                             (map (\<lambda>(x, y). (Name x, str_split y '','')) xys)))))
         else Inr (PartList ps))"

record composed_vocab =
  sep :: string
  keyed :: bool
  cid2unit_tbl :: "(field_key, string list) dict"
  cunit2id_tbl :: "(field_key, (string, nat) dict) dict"

datatype encoded = Flat "nat list" | Nested "nat list list"

text \<open>
  Keyed mode of \<open>ComposedVocab.unit2id\<close>, one known key \<open>k\<close> with its table
  \<open>self._unit2id[k]\<close>: the keys of a dict are distinct, so iterating the keys and
  reading the dict at each key visits the pairs in order.
\<close>

definition keyed_entry ::
  "(field_key, string list) dict \<Rightarrow> field_key \<times> (string, nat) dict \<Rightarrow> py_error + nat list" where
  "keyed_entry pd kt =
     (case map_of pd (fst kt) of
        Some vs \<Rightarrow> list_comp (dict_getitem (snd kt)) vs
      | None \<Rightarrow> Inr [0])"

text \<open>Positional mode, field index \<open>i\<close>: \<open>dict.get(parts[i], 0)\<close> does not raise.\<close>

definition positional_entry ::
  "(field_key, (string, nat) dict) dict \<Rightarrow> string list \<Rightarrow> nat \<Rightarrow> py_error + nat" where
  "positional_entry tbls ps i =
     (if i < length ps then
        (case dict_getitem tbls (Idx i) of
           Inl e \<Rightarrow> Inl e
         | Inr t \<Rightarrow> Inr (case map_of t (ps ! i) of None \<Rightarrow> 0 | Some j \<Rightarrow> j))
      else Inr 0)"

definition composed_unit2id :: "composed_vocab \<Rightarrow> string \<Rightarrow> py_error + encoded" where
  "composed_unit2id V unit =
     (case unit2parts (sep V) (keyed V) unit of
        Inl e \<Rightarrow> Inl e
      | Inr (PartDict pd) \<Rightarrow>
          (if keyed V then
             (case list_comp (keyed_entry pd) (cunit2id_tbl V) of
                Inl e \<Rightarrow> Inl e | Inr rows \<Rightarrow> Inr (Nested rows))
           else Inl TypeError)
      | Inr (PartList ps) \<Rightarrow>
          (if keyed V then Inl TypeError
           else (case list_comp (positional_entry (cunit2id_tbl V) ps)
                        [0 ..< length (cunit2id_tbl V)] of
                   Inl e \<Rightarrow> Inl e | Inr ids \<Rightarrow> Inr (Flat ids))))"

definition composed_id2unit :: "composed_vocab \<Rightarrow> int \<Rightarrow> py_error + string" where
  "composed_id2unit V i = Inl NotImplementedError"

subsection \<open>build_vocab\<close>

text \<open>\<open>if key not in self._id2unit: self._id2unit[key] = copy(VOCAB_PREFIX)\<close>\<close>

definition ensure_key ::
  "field_key \<Rightarrow> (field_key, string list) dict \<Rightarrow> (field_key, string list) dict" where
  "ensure_key k d = (if dict_in k d then d else AList.update k VOCAB_PREFIX d)"

text \<open>
  \<open>if v not in self._id2unit[key]: self._id2unit[key].append(v)\<close>; the list is
  changed in place, so the key keeps its position. The key is present when this runs.
\<close>

definition append_new ::
  "field_key \<Rightarrow> string \<Rightarrow> (field_key, string list) dict \<Rightarrow> (field_key, string list) dict" where
  "append_new k v d =
     (case map_of d k of
        None \<Rightarrow> d
      | Some us \<Rightarrow> if v \<in> set us then d else AList.update k (us @ [v]) d)"

text \<open>The body of \<open>for key in parts\<close> (keyed mode), for one key and its values.\<close>

definition add_keyed ::
  "field_key \<times> string list \<Rightarrow> (field_key, string list) dict \<Rightarrow> (field_key, string list) dict" where
  "add_keyed kv d = fold (append_new (fst kv)) (snd kv) (ensure_key (fst kv) d)"

text \<open>
  The body of \<open>for i, p in enumerate(parts)\<close> (positional mode); the test
  \<open>i < len(parts)\<close> of the source is true for every enumerated index.
\<close>

definition add_positional ::
  "nat \<times> string \<Rightarrow> (field_key, string list) dict \<Rightarrow> (field_key, string list) dict" where
  "add_positional ip d = append_new (Idx (fst ip)) (snd ip) (ensure_key (Idx (fst ip)) d)"

fun build_keyed ::
  "string \<Rightarrow> (field_key, string list) dict \<Rightarrow> string list
     \<Rightarrow> py_error + (field_key, string list) dict" where
  "build_keyed sp d [] = Inr d"
| "build_keyed sp d (u # us) =
     (case unit2parts sp True u of
        Inl e \<Rightarrow> Inl e
      | Inr (PartList ps) \<Rightarrow> Inl TypeError
      | Inr (PartDict pd) \<Rightarrow> build_keyed sp (fold add_keyed pd d) us)"

definition parts_list :: "parts \<Rightarrow> string list" where
  "parts_list p = (case p of PartList ps \<Rightarrow> ps | PartDict pd \<Rightarrow> [])"

definition build_positional ::
  "string \<Rightarrow> string list \<Rightarrow> py_error + (field_key, string list) dict" where
  "build_positional sp allunits =
     (case list_comp (unit2parts sp False) allunits of
        Inl e \<Rightarrow> Inl e
      | Inr allparts \<Rightarrow>
          if allparts = [] then Inl ValueError
          else Inr (fold (\<lambda>p d. fold add_positional (enumerate 0 (parts_list p)) d)
                      allparts []))"

text \<open>
  \<open>build_vocab\<close>: \<open>data\<close> is a list of sentences, a sentence a list of words, a word
  a list of fields, of which \<open>idx\<close> selects the unit. In positional mode
  \<open>max\<close> of the empty list raises \<open>ValueError\<close>.
\<close>

definition build_vocab ::
  "string \<Rightarrow> bool \<Rightarrow> int \<Rightarrow> string list list list \<Rightarrow> py_error + composed_vocab" where
  "build_vocab sp kd idx data =
     (case list_comp (\<lambda>w. list_getitem w idx) (concat data) of
        Inl e \<Rightarrow> Inl e
      | Inr allunits \<Rightarrow>
          (case (if kd then build_keyed sp [] allunits else build_positional sp allunits) of
             Inl e \<Rightarrow> Inl e
           | Inr d \<Rightarrow>
               Inr \<lparr>sep = sp, keyed = kd, cid2unit_tbl = d,
                    cunit2id_tbl = map (\<lambda>(k, us). (k, enumerate_dict us)) d\<rparr>))"

text \<open>
  The vocabulary of the specification's keyed example, built from the tags
  \<open>Case=Nom|Number=Sing\<close> and \<open>_\<close> with separator \<open>|\<close>.
\<close>

definition feats_vocab :: composed_vocab where
  "feats_vocab =
     \<lparr>sep = ''|'', keyed = True,
      cid2unit_tbl = [(Name ''Case'', [PAD, ''Nom'']), (Name ''Number'', [PAD, ''Sing''])],
      cunit2id_tbl = [(Name ''Case'', [(PAD, 0), (''Nom'', 1)]),
                      (Name ''Number'', [(PAD, 0), (''Sing'', 1)])]\<rparr>"

text \<open>
  The vocabulary of the specification's positional example, built over the units
  \<open>ab\<close> and \<open>abc\<close> with the empty separator.
\<close>

definition chars_vocab :: composed_vocab where
  "chars_vocab =
     \<lparr>sep = [], keyed = False,
      cid2unit_tbl = [(Idx 0, [PAD, ''a'']), (Idx 1, [PAD, ''b'']), (Idx 2, [PAD, ''c''])],
      cunit2id_tbl = [(Idx 0, [(PAD, 0), (''a'', 1)]), (Idx 1, [(PAD, 0), (''b'', 1)]),
                      (Idx 2, [(PAD, 0), (''c'', 1)])]\<rparr>"

section \<open>models/lemma/seq2seq_model.py: Seq2SeqModel.predict_greedy\<close>

text \<open>
  The encoder, the decoder and the embedding are the external step model. One call of
  \<open>self.decode\<close> followed by the arg-max and the re-embedding is a function
  \<open>decode\<close> from the decoder state (decoder inputs with the hidden state) to the
  predictions \<open>preds\<close> of the step, one token id per example of the batch, and the
  next decoder state. \<open>eos\<close> stands for \<open>constant.EOS_ID\<close>, which is not among the
  sources.
\<close>

record 's greedy_state =
  dec :: 's
  done_list :: "bool list"
  total_done :: nat
  output_seqs :: "nat list list"

text \<open>
  The body of \<open>for i in range(batch_size)\<close>; \<open>done_list\<close> is the list \<open>done\<close> of
  the source. The statement \<open>done[i] == True\<close> of the
  source is a comparison whose value is dropped: the flag list is left as it is.
\<close>

definition greedy_example :: "nat \<Rightarrow> (nat \<Rightarrow> nat) \<Rightarrow> nat \<Rightarrow> 's greedy_state \<Rightarrow> 's greedy_state" where
  "greedy_example eos preds i st =
     (if \<not> done_list st ! i then
        (let token = preds i
         in if token = eos then st\<lparr>total_done := total_done st + 1\<rparr>
            else st\<lparr>output_seqs := (output_seqs st)[i := output_seqs st ! i @ [token]]\<rparr>)
      else st)"

text \<open>The \<open>while\<close> loop; \<open>max_len\<close> counts the steps taken.\<close>

function greedy_loop ::
  "('s \<Rightarrow> (nat \<Rightarrow> nat) \<times> 's) \<Rightarrow> nat \<Rightarrow> nat \<Rightarrow> nat \<Rightarrow> nat \<Rightarrow> 's greedy_state
     \<Rightarrow> nat \<times> 's greedy_state" where
  "greedy_loop decode eos batch_size max_dec_len max_len st =
     (if total_done st < batch_size \<and> max_len < max_dec_len then
        (case decode (dec st) of
           (preds, d) \<Rightarrow>
             greedy_loop decode eos batch_size max_dec_len (max_len + 1)
               (fold (greedy_example eos preds) [0 ..< batch_size] (st\<lparr>dec := d\<rparr>)))
      else (max_len, st))"
  by pat_completeness auto
termination
  by (relation "measure (\<lambda>(decode, eos, batch_size, max_dec_len, max_len, st).
                  max_dec_len - max_len)") auto

definition greedy_init :: "nat \<Rightarrow> 's \<Rightarrow> 's greedy_state" where
  "greedy_init batch_size d =
     \<lparr>dec = d, done_list = replicate batch_size False, total_done = 0,
      output_seqs = replicate batch_size []\<rparr>"

definition greedy_run ::
  "('s \<Rightarrow> (nat \<Rightarrow> nat) \<times> 's) \<Rightarrow> nat \<Rightarrow> nat \<Rightarrow> nat \<Rightarrow> 's \<Rightarrow> nat \<times> 's greedy_state" where
  "greedy_run decode eos batch_size max_dec_len d =
     greedy_loop decode eos batch_size max_dec_len 0 (greedy_init batch_size d)"

definition predict_greedy ::
  "('s \<Rightarrow> (nat \<Rightarrow> nat) \<times> 's) \<Rightarrow> nat \<Rightarrow> nat \<Rightarrow> nat \<Rightarrow> 's \<Rightarrow> nat list list" where
  "predict_greedy decode eos batch_size max_dec_len d =
     output_seqs (snd (greedy_run decode eos batch_size max_dec_len d))"

text \<open>
  What the step model predicts at step \<open>k\<close> of a run that starts in decoder state
  \<open>d\<close>, and how many examples of the batch it predicts \<open>eos\<close> for at that step.
\<close>

definition dec_after :: "('s \<Rightarrow> (nat \<Rightarrow> nat) \<times> 's) \<Rightarrow> 's \<Rightarrow> nat \<Rightarrow> 's" where
  "dec_after decode d k = ((\<lambda>s. snd (decode s)) ^^ k) d"

definition preds_at :: "('s \<Rightarrow> (nat \<Rightarrow> nat) \<times> 's) \<Rightarrow> 's \<Rightarrow> nat \<Rightarrow> nat \<Rightarrow> nat" where
  "preds_at decode d k = fst (decode (dec_after decode d k))"

definition eos_count :: "nat \<Rightarrow> nat \<Rightarrow> (nat \<Rightarrow> nat) \<Rightarrow> nat" where
  "eos_count eos batch_size preds = length (filter (\<lambda>i. preds i = eos) [0 ..< batch_size])"

text \<open>
  A step model for the examples: the decoder state is the step number, and example
  0 is predicted \<open>3, 7, 3, 8\<close> and example 1 \<open>5, 5, 6, 6\<close> over the steps.
\<close>

definition table_decode :: "nat \<Rightarrow> (nat \<Rightarrow> nat) \<times> nat" where
  "table_decode k = ((\<lambda>i. ([[3, 7, 3, 8], [5, 5, 6, 6]] ! i) ! k), k + 1)"

text \<open>
  The state of the \<open>while\<close> loop after \<open>m\<close> steps of a run from decoder state
  \<open>d\<close>: no flag is set, the counter holds every \<open>eos\<close> predicted so far, and each
  output sequence holds every other token predicted for its example so far.
\<close>

definition greedy_inv ::
  "('s \<Rightarrow> (nat \<Rightarrow> nat) \<times> 's) \<Rightarrow> nat \<Rightarrow> nat \<Rightarrow> 's \<Rightarrow> nat \<Rightarrow> 's greedy_state \<Rightarrow> bool" where
  "greedy_inv decode eos batch_size d m st =
     (dec st = dec_after decode d m
      \<and> done_list st = replicate batch_size False
      \<and> length (output_seqs st) = batch_size
      \<and> total_done st = (\<Sum>k<m. eos_count eos batch_size (preds_at decode d k))
      \<and> output_seqs st =
          map (\<lambda>i. filter (\<lambda>t. t \<noteq> eos) (map (\<lambda>k. preds_at decode d k i) [0 ..< m]))
            [0 ..< batch_size])"

section \<open>models/lemma/seq2seq_model.py: Seq2SeqModel.predict\<close>

text \<open>
  The class \<open>Beam\<close> (\<open>models.lemma.beam\<close>) is not among the sources, and the
  decoder is the external step model, so a beam is a value of a type \<open>'b\<close> and the
  operations the main loop of \<open>predict\<close> calls are parameters:
  \<open>advance\<close> returns the early-exit signal with the beam after the step,
  \<open>decode_beams\<close> is \<open>self.decode\<close> on the current states of the beams (it returns
  \<open>log_probs.data[b]\<close> for each \<open>b\<close> and the new hidden state) and \<open>update_state\<close>
  reorders the hidden state by the back-pointers of beam \<open>b\<close>.
\<close>

record ('b, 'h, 'l) beam_model =
  advance :: "'b \<Rightarrow> 'l \<Rightarrow> bool \<times> 'b"
  decode_beams :: "'h \<Rightarrow> 'b list \<Rightarrow> (nat \<Rightarrow> 'l) \<times> 'h"
  update_state :: "'h \<Rightarrow> nat \<Rightarrow> 'b \<Rightarrow> 'h"

text \<open>
  The state of the main loop. \<open>advanced\<close> is not a variable of the source: it logs
  every call of \<open>advance\<close> as (step, beam index, signal returned), so that the order
  of the calls can be stated.
\<close>

record ('b, 'h) predict_state =
  beam :: "'b list"
  hidden :: 'h
  advanced :: "(nat \<times> nat \<times> bool) list"

text \<open>
  The body of \<open>for b in range(batch_size)\<close> at step \<open>i\<close>; \<open>done_beams\<close> is the list
  \<open>done\<close> of the source.
\<close>

definition advance_one ::
  "('b, 'h, 'l) beam_model \<Rightarrow> nat \<Rightarrow> (nat \<Rightarrow> 'l) \<Rightarrow> nat
     \<Rightarrow> ('b, 'h) predict_state \<times> nat list \<Rightarrow> ('b, 'h) predict_state \<times> nat list" where
  "advance_one m i log_probs b sd =
     (case sd of
        (st, done_beams) \<Rightarrow>
          (case advance m (beam st ! b) (log_probs b) of
             (is_done, bm) \<Rightarrow>
               (st\<lparr>beam := (beam st)[b := bm],
                   hidden := update_state m (hidden st) b bm,
                   advanced := advanced st @ [(i, b, is_done)]\<rparr>,
                if is_done then done_beams @ [b] else done_beams)))"

text \<open>
  \<open>for i in range(self.max_dec_len)\<close>, over the steps that are left: \<open>done\<close> is
  emptied at every step, every beam is advanced, and the loop is left when all beams
  of the batch returned the signal at this step.
\<close>

fun predict_loop ::
  "('b, 'h, 'l) beam_model \<Rightarrow> nat \<Rightarrow> nat list \<Rightarrow> ('b, 'h) predict_state
     \<Rightarrow> ('b, 'h) predict_state" where
  "predict_loop m batch_size [] st = st"
| "predict_loop m batch_size (i # steps) st =
     (case decode_beams m (hidden st) (beam st) of
        (log_probs, h) \<Rightarrow>
          (case fold (advance_one m i log_probs) [0 ..< batch_size] (st\<lparr>hidden := h\<rparr>, []) of
             (st', done_beams) \<Rightarrow>
               if length done_beams = batch_size then st'
               else predict_loop m batch_size steps st'))"

text \<open>
  The main loop of \<open>predict\<close> from the beams and the hidden state set up before it.
  The back trace after the loop (\<open>sort_best\<close>, \<open>get_hyp\<close>, \<open>prune_hyp\<close>) calls
  no \<open>advance\<close>.
\<close>

definition predict_run ::
  "('b, 'h, 'l) beam_model \<Rightarrow> nat \<Rightarrow> nat \<Rightarrow> 'b list \<Rightarrow> 'h \<Rightarrow> ('b, 'h) predict_state" where
  "predict_run m batch_size max_dec_len beams h =
     predict_loop m batch_size [0 ..< max_dec_len] \<lparr>beam = beams, hidden = h, advanced = []\<rparr>"

text \<open>Some beam is advanced at a step later than one at which it returned the signal.\<close>

definition advanced_after_done :: "(nat \<times> nat \<times> bool) list \<Rightarrow> bool" where
  "advanced_after_done calls =
     list_ex (\<lambda>(i, b, d). d \<and> list_ex (\<lambda>(j, c, e). c = b \<and> i < j) calls) calls"

text \<open>
  A beam for the examples: a flag that stays set, and the tokens its best hypothesis
  will emit; \<open>advance\<close> sets the flag when the token is 3 (the end of sequence).
\<close>

definition script_model :: "(bool \<times> nat list, unit, unit) beam_model" where
  "script_model =
     \<lparr>advance = (\<lambda>bm lp. case bm of
                   (dn, []) \<Rightarrow> (dn, (dn, []))
                 | (dn, t # ts) \<Rightarrow> (dn \<or> t = 3, (dn \<or> t = 3, ts))),
      decode_beams = (\<lambda>h beams. (\<lambda>b. (), h)),
      update_state = (\<lambda>h b bm. h)\<rparr>"

section \<open>models/lemma/loader.py and models/mwt/data.py: DataLoader\<close>

text \<open>
  The constants of \<open>models.common.seq2seq_constant\<close> are not among the sources: the
  start and end tokens and the id of the unknown unit are parameters. The padding id
  is 0.
\<close>

record seq2seq_constant =
  SOS :: string
  EOS :: string
  UNK_ID :: nat

text \<open>
  A token handed to \<open>map_to_ids\<close> is a string; in evaluation mode the multi-word
  loader also hands over ids it has already mapped.
\<close>

datatype token = StrTok string | IdTok nat

text \<open>
  Modelled from the spec: \<open>map_to_ids\<close> (\<open>models.common.data\<close>) is not among the
  sources. The batch assembler maps units to ids through a vocabulary, and a lookup
  miss is not an error but resolves to the unknown id; an id is not a key of the
  vocabulary.
\<close>

definition map_to_ids :: "nat \<Rightarrow> token list \<Rightarrow> (string, nat) dict \<Rightarrow> nat list" where
  "map_to_ids unk tokens vocab =
     map (\<lambda>t. case t of
                StrTok s \<Rightarrow> (case map_of vocab s of Some i \<Rightarrow> i | None \<Rightarrow> unk)
              | IdTok n \<Rightarrow> unk) tokens"

definition max_length :: "nat list list \<Rightarrow> nat" where
  "max_length rows = foldr (\<lambda>s m. max (length s) m) rows 0"

text \<open>
  Modelled from the spec: \<open>get_long_tensor\<close> (\<open>models.common.data\<close>) is not among
  the sources. It pads the sequences of one field to a rectangular tensor of
  \<open>batch_size\<close> rows whose width is the longest sequence; the padding value is the
  \<open>PAD\<close> id. A tensor is the list of its rows, and \<open>size1\<close> is \<open>tensor.size(1)\<close>.
\<close>

definition get_long_tensor :: "nat list list \<Rightarrow> nat \<Rightarrow> nat list list" where
  "get_long_tensor tokens_list batch_size =
     map (\<lambda>s. s @ replicate (max_length tokens_list - length s) PAD_ID) tokens_list
     @ replicate (batch_size - length tokens_list) (replicate (max_length tokens_list) PAD_ID)"

definition size1 :: "nat list list \<Rightarrow> nat" where
  "size1 t = (case t of [] \<Rightarrow> 0 | r # rs \<Rightarrow> length r)"

text \<open>
  Modelled from the spec: \<open>sort_all\<close> (\<open>models.common.data\<close>) is not among the
  sources. It sorts the examples of a chunk by descending length, stably for equal
  lengths, and returns with them the permutation \<open>orig_idx\<close> that maps a sorted
  position back to the original position. The source transposes the chunk into its
  fields before the call (\<open>zip(*batch)\<close>) and sorts the fields in parallel; the model
  sorts the examples and takes the fields afterwards.
\<close>

definition sort_all :: "'a list \<Rightarrow> nat list \<Rightarrow> 'a list \<times> nat list" where
  "sort_all batch lens =
     (let sorted_all = sort_key (\<lambda>(l, i, x). - int l) (zip lens (zip [0 ..< length lens] batch))
      in (map (\<lambda>(l, i, x). x) sorted_all, map (\<lambda>(l, i, x). i) sorted_all))"

text \<open>
  One preprocessed example: \<open>[src, tgt_in, tgt_out]\<close> in the multi-word loader,
  with \<open>pos\<close> and \<open>edit_type\<close> added in the lemma loader.
\<close>

record example =
  src :: "nat list"
  tgt_in :: "nat list"
  tgt_out :: "nat list"

record lemma_example = example +
  pos :: nat
  edit_type :: nat

text \<open>The tuple that \<open>__getitem__\<close> returns.\<close>

record batch =
  src_t :: "nat list list"
  src_mask :: "bool list list"
  tgt_in_t :: "nat list list"
  tgt_out_t :: "nat list list"
  orig_idx :: "nat list"

record lemma_batch = batch +
  pos_t :: "nat list"
  edits_t :: "nat list"

subsection \<open>models/lemma/loader.py\<close>

text \<open>
  \<open>preprocess\<close>: a datum is (word, upos, lemma). \<open>edit_id w l\<close> stands for
  \<open>edit.EDIT_TO_ID[edit.get_edit_type(w, l)]\<close>; the module \<open>edit\<close> is not among the
  sources. \<open>vocab\<close> and \<open>pos_vocab\<close> are the dicts \<open>vocab.unit2id\<close> and
  \<open>pos_vocab.unit2id\<close>.
\<close>

definition preprocess ::
  "seq2seq_constant \<Rightarrow> (string \<Rightarrow> string \<Rightarrow> nat) \<Rightarrow> (string \<times> string \<times> string) list
     \<Rightarrow> (string, nat) dict \<Rightarrow> (string, nat) dict \<Rightarrow> lemma_example list" where
  "preprocess c edit_id data vocab pos_vocab =
     map (\<lambda>(w, p, l).
            \<lparr>src = map_to_ids (UNK_ID c) ([StrTok (SOS c)] @ map (\<lambda>x. StrTok [x]) w @ [StrTok (EOS c)]) vocab,
             tgt_in = map_to_ids (UNK_ID c) ([StrTok (SOS c)] @ map (\<lambda>x. StrTok [x]) l) vocab,
             tgt_out = map_to_ids (UNK_ID c) (map (\<lambda>x. StrTok [x]) l @ [StrTok (EOS c)]) vocab,
             pos = (case map_of pos_vocab p of Some i \<Rightarrow> i | None \<Rightarrow> UNK_ID c),
             edit_type = edit_id w l\<rparr>) data"

text \<open>
  \<open>[data[i:i+batch_size] for i in range(0, len(data), batch_size)]\<close>; \<open>range\<close> with
  step 0 raises \<open>ValueError\<close>.
\<close>

function chunks :: "nat \<Rightarrow> 'a list \<Rightarrow> 'a list list" where
  "chunks n xs = (if n = 0 \<or> xs = [] then [] else take n xs # chunks n (drop n xs))"
  by pat_completeness auto
termination
  by (relation "measure (\<lambda>(n, xs). length xs)") auto

declare chunks.simps [simp del]

definition chunk_data :: "nat \<Rightarrow> 'a list \<Rightarrow> py_error + 'a list list" where
  "chunk_data batch_size data =
     (if batch_size = 0 then Inl ValueError else Inr (chunks batch_size data))"

text \<open>
  The constructor from \<open>preprocess\<close> on: \<open>data\<close> is the list of data left after the
  optional random subsampling, and \<open>shuffled\<close> is the list \<open>indices\<close> after
  \<open>random.shuffle\<close> in training mode, \<open>None\<close> in evaluation mode. The result is
  \<open>self.data\<close>, the list of chunks.
\<close>

definition DataLoader_init ::
  "seq2seq_constant \<Rightarrow> (string \<Rightarrow> string \<Rightarrow> nat) \<Rightarrow> nat \<Rightarrow> nat list option
     \<Rightarrow> (string \<times> string \<times> string) list \<Rightarrow> (string, nat) dict \<Rightarrow> (string, nat) dict
     \<Rightarrow> py_error + lemma_example list list" where
  "DataLoader_init c edit_id batch_size shuffled data vocab pos_vocab =
     (let d = preprocess c edit_id data vocab pos_vocab
      in case (case shuffled of
                 None \<Rightarrow> Inr d
               | Some indices \<Rightarrow> list_comp (\<lambda>i. list_getitem d (int i)) indices) of
           Inl e \<Rightarrow> Inl e
         | Inr d' \<Rightarrow> chunk_data batch_size d')"

text \<open>
  \<open>__getitem__\<close>. Of an empty chunk \<open>zip(*batch)\<close> is empty, so the assertion
  \<open>len(batch) == 5\<close> fails.
\<close>

definition getitem :: "lemma_example list list \<Rightarrow> int \<Rightarrow> py_error + lemma_batch" where
  "getitem data key =
     (if key < 0 \<or> key \<ge> int (length data) then Inl IndexError
      else
        (let batch = data ! nat key; batch_size = length batch
         in if batch = [] then Inl AssertionError
            else
              (case sort_all batch (map (\<lambda>x. length (src x)) batch) of
                 (sorted_batch, oidx) \<Rightarrow>
                   (let s = get_long_tensor (map src sorted_batch) batch_size;
                        ti = get_long_tensor (map tgt_in sorted_batch) batch_size;
                        to = get_long_tensor (map tgt_out sorted_batch) batch_size
                    in if size1 ti \<noteq> size1 to then Inl AssertionError
                       else Inr \<lparr>src_t = s, src_mask = map (map (\<lambda>x. x = PAD_ID)) s,
                                 tgt_in_t = ti, tgt_out_t = to, orig_idx = oidx,
                                 pos_t = map pos sorted_batch,
                                 edits_t = map edit_type sorted_batch\<rparr>))))"

subsection \<open>models/mwt/data.py\<close>

text \<open>
  \<open>preprocess\<close>: a datum is a list of strings, the source and (in training mode) the
  target; \<open>vocab\<close> is the table \<open>_unit2id\<close> of the vocabulary. In evaluation mode the
  target is the source that has just been mapped to ids.
\<close>

definition mwt_example ::
  "seq2seq_constant \<Rightarrow> bool \<Rightarrow> (string, nat) dict \<Rightarrow> string list \<Rightarrow> py_error + example" where
  "mwt_example c eval vocab d =
     (case list_getitem d 0 of
        Inl e \<Rightarrow> Inl e
      | Inr d0 \<Rightarrow>
          (let s = map_to_ids (UNK_ID c) ([StrTok (SOS c)] @ map (\<lambda>x. StrTok [x]) d0 @ [StrTok (EOS c)]) vocab
           in case (if eval then Inr (map IdTok s)
                    else (case list_getitem d 1 of
                            Inl e \<Rightarrow> Inl e
                          | Inr d1 \<Rightarrow> Inr (map (\<lambda>x. StrTok [x]) d1))) of
                Inl e \<Rightarrow> Inl e
              | Inr tgt \<Rightarrow>
                  Inr \<lparr>src = s,
                       tgt_in = map_to_ids (UNK_ID c) ([StrTok (SOS c)] @ tgt) vocab,
                       tgt_out = map_to_ids (UNK_ID c) (tgt @ [StrTok (EOS c)]) vocab\<rparr>))"

definition mwt_preprocess ::
  "seq2seq_constant \<Rightarrow> bool \<Rightarrow> string list list \<Rightarrow> (string, nat) dict
     \<Rightarrow> py_error + example list" where
  "mwt_preprocess c eval data vocab = list_comp (mwt_example c eval vocab) data"

definition mwt_getitem :: "example list list \<Rightarrow> int \<Rightarrow> py_error + batch" where
  "mwt_getitem data key =
     (if key < 0 \<or> key \<ge> int (length data) then Inl IndexError
      else
        (let batch = data ! nat key; batch_size = length batch
         in if batch = [] then Inl AssertionError
            else
              (case sort_all batch (map (\<lambda>x. length (src x)) batch) of
                 (sorted_batch, oidx) \<Rightarrow>
                   (let s = get_long_tensor (map src sorted_batch) batch_size;
                        ti = get_long_tensor (map tgt_in sorted_batch) batch_size;
                        to = get_long_tensor (map tgt_out sorted_batch) batch_size
                    in if size1 ti \<noteq> size1 to then Inl AssertionError
                       else Inr \<lparr>src_t = s, src_mask = map (map (\<lambda>x. x = PAD_ID)) s,
                                 tgt_in_t = ti, tgt_out_t = to, orig_idx = oidx\<rparr>))))"

text \<open>Data for the examples: three words of lengths 3, 1 and 2 over a small vocabulary.\<close>

definition toy_constant :: seq2seq_constant where
  "toy_constant = \<lparr>SOS = ''<SOS>'', EOS = ''<EOS>'', UNK_ID = 1\<rparr>"

definition toy_vocab :: "(string, nat) dict" where
  "toy_vocab = [(''<PAD>'', 0), (''<UNK>'', 1), (''<SOS>'', 2), (''<EOS>'', 3),
                (''a'', 4), (''b'', 5), (''c'', 6)]"

definition toy_data :: "(string \<times> string \<times> string) list" where
  "toy_data = [(''abc'', ''NOUN'', ''ab''), (''a'', ''VERB'', ''abc''), (''cb'', ''NOUN'', ''c'')]"

text \<open>
  Modelled from the spec: \<open>unsort\<close> (\<open>models.common.utils\<close>) is not among the
  sources. Length sorting is undone through \<open>orig_idx\<close> before results are reported:
  each sorted item goes back to the position \<open>orig_idx\<close> names for it.
\<close>

definition unsort :: "'a list \<Rightarrow> nat list \<Rightarrow> 'a list" where
  "unsort sorted_list oidx = map snd (sort_key fst (zip oidx sorted_list))"

definition toy_pos_vocab :: "(string, nat) dict" where
  "toy_pos_vocab = [(''NOUN'', 2)]"

text \<open>The chunks of the toy data with batch size 3 and no shuffling, and its one batch.\<close>

definition toy_chunks :: "lemma_example list list" where
  "toy_chunks =
     [[\<lparr>src = [2, 4, 5, 6, 3], tgt_in = [2, 4, 5], tgt_out = [4, 5, 3], pos = 2, edit_type = 0\<rparr>,
       \<lparr>src = [2, 4, 3], tgt_in = [2, 4, 5, 6], tgt_out = [4, 5, 6, 3], pos = 1, edit_type = 0\<rparr>,
       \<lparr>src = [2, 6, 5, 3], tgt_in = [2, 6], tgt_out = [6, 3], pos = 2, edit_type = 0\<rparr>]]"

definition toy_batch :: lemma_batch where
  "toy_batch =
     \<lparr>src_t = [[2, 4, 5, 6, 3], [2, 6, 5, 3, 0], [2, 4, 3, 0, 0]],
      src_mask = [[False, False, False, False, False],
                  [False, False, False, False, True],
                  [False, False, False, True, True]],
      tgt_in_t = [[2, 4, 5, 0], [2, 6, 0, 0], [2, 4, 5, 6]],
      tgt_out_t = [[4, 5, 3, 0], [6, 3, 0, 0], [4, 5, 6, 3]],
      orig_idx = [0, 2, 1], pos_t = [2, 2, 1], edits_t = [0, 0, 0]\<rparr>"

section \<open>Properties of Vocab\<close>

lemma map_of_fold_enum_notin:
  "w \<notin> set xs \<Longrightarrow>
   map_of (fold (\<lambda>(i, w) d. AList.update w i d) (enumerate n xs) d) w = map_of d w"
  by (induction xs arbitrary: n d) (auto simp: update_conv')

lemma map_of_fold_enum_in:
  "w \<in> set xs \<Longrightarrow>
   map_of (fold (\<lambda>(i, w) d. AList.update w i d) (enumerate n xs) d) w \<noteq> None"
proof (induction xs arbitrary: n d)
  case Nil
  then show ?case by simp
next
  case (Cons x xs)
  show ?case
  proof (cases "w \<in> set xs")
    case True
    then show ?thesis using Cons.IH by simp
  next
    case False
    with Cons.prems have "w = x" by simp
    with False show ?thesis by (simp add: map_of_fold_enum_notin update_conv')
  qed
qed

lemma map_of_fold_enum_nth:
  "distinct xs \<Longrightarrow> i < length xs \<Longrightarrow>
   map_of (fold (\<lambda>(i, w) d. AList.update w i d) (enumerate n xs) d) (xs ! i) = Some (n + i)"
proof (induction xs arbitrary: n d i)
  case Nil
  then show ?case by simp
next
  case (Cons x xs)
  show ?case
  proof (cases i)
    case 0
    then show ?thesis using Cons.prems by (simp add: map_of_fold_enum_notin update_conv')
  next
    case (Suc j)
    then show ?thesis using Cons.prems Cons.IH [of j "Suc n"] by simp
  qed
qed

lemma dict_in_enumerate_dict: "dict_in w (enumerate_dict xs) = (w \<in> set xs)"
proof (cases "w \<in> set xs")
  case True
  then show ?thesis
    using map_of_fold_enum_in [of w xs 0 "[]"] by (simp add: dict_in_def enumerate_dict_def)
next
  case False
  then show ?thesis
    using map_of_fold_enum_notin [of w xs 0 "[]"] by (simp add: dict_in_def enumerate_dict_def)
qed

lemma enumerate_dict_nth:
  "distinct xs \<Longrightarrow> i < length xs \<Longrightarrow> map_of (enumerate_dict xs) (xs ! i) = Some i"
  using map_of_fold_enum_nth [of xs i 0 "[]"] by (simp add: enumerate_dict_def)

lemma built_example_vocab: "built example_vocab"
  by (simp add: built_def example_vocab_def PAD_def UNK_def)

text \<open>
  Claim C1. For a built vocabulary, \<open>unit2id\<close> of a unit that the vocabulary does not
  contain does not raise: it returns an id, and that id is the id of the reserved
  \<open>UNK\<close> unit (\<open>id2unit\<close> maps it back to \<open>UNK\<close>).
\<close>

theorem unit2id_absent_is_UNK:
  assumes "built V" and "\<not> vocab_contains V u"
  shows "\<exists>i. unit2id V u = Inr i \<and> id2unit V (int i) = Inr UNK"
proof -
  from assms(1) have d: "distinct (id2unit_tbl V)"
    and t: "unit2id_tbl V = enumerate_dict (id2unit_tbl V)"
    and m: "UNK \<in> set (id2unit_tbl V)"
    by (simp_all add: built_def)
  from m obtain i where i: "i < length (id2unit_tbl V)" "id2unit_tbl V ! i = UNK"
    by (auto simp: in_set_conv_nth)
  from d i have "map_of (unit2id_tbl V) UNK = Some i"
    using enumerate_dict_nth [of "id2unit_tbl V" i] t by simp
  with assms(2) have "unit2id V u = Inr i"
    by (simp add: unit2id_def vocab_contains_def normalize_unit_def dict_getitem_def)
  moreover from i have "id2unit V (int i) = Inr UNK"
    by (simp add: id2unit_def list_getitem_def)
  ultimately show ?thesis by blast
qed

theorem unit2id_absent_is_UNK_witness:
  "built example_vocab \<and> \<not> vocab_contains example_vocab ''z''
   \<and> (\<exists>i. unit2id example_vocab ''z'' = Inr i \<and> id2unit example_vocab (int i) = Inr UNK)"
proof -
  have b: "built example_vocab" by (rule built_example_vocab)
  have a: "\<not> vocab_contains example_vocab ''z''"
    by (simp add: vocab_contains_def example_vocab_def dict_in_enumerate_dict PAD_def UNK_def)
  from unit2id_absent_is_UNK [OF b a] b a show ?thesis by blast
qed

text \<open>
  The fallback is a plain dict read: in a state whose table has no \<open>UNK\<close> key (which
  the invariant \<open>built\<close> excludes) the same call raises \<open>KeyError\<close>.
\<close>

lemma unit2id_without_UNK:
  "\<not> vocab_contains V u \<Longrightarrow> \<not> vocab_contains V UNK \<Longrightarrow> unit2id V u = Inl KeyError"
  by (simp add: unit2id_def vocab_contains_def normalize_unit_def dict_getitem_def dict_in_def)

text \<open>
  Claim C7, as stated: \<open>id2unit i\<close> fails exactly when \<open>i\<close> is outside \<open>[0, size)\<close>.
  The source indexes a Python list, so a negative index down to \<open>-size\<close> reads from
  the end: on the four-unit example vocabulary \<open>id2unit (-1)\<close> returns the last unit.
\<close>

theorem id2unit_negative_index_counterexample:
  "id2unit example_vocab (- 1) = Inr ''b''
   \<and> (- 1 :: int) \<notin> {0 ..< int (vocab_len example_vocab)}"
  by (simp add: id2unit_def list_getitem_def example_vocab_def vocab_len_def)

text \<open>
  Claim C7, amended: \<open>id2unit i\<close> fails with \<open>IndexError\<close> exactly when \<open>i\<close> is
  outside \<open>[-size, size)\<close>; for \<open>i\<close> in \<open>[0, size)\<close> it returns the unit at \<open>i\<close>, and
  for \<open>i\<close> in \<open>[-size, 0)\<close> the unit at \<open>size + i\<close>.
\<close>

theorem id2unit_range:
  "id2unit V i =
     (if - int (vocab_len V) \<le> i \<and> i < int (vocab_len V)
      then Inr (id2unit_tbl V ! nat (if i < 0 then int (vocab_len V) + i else i))
      else Inl IndexError)"
  by (auto simp: id2unit_def list_getitem_def vocab_len_def)

theorem id2unit_range_witness:
  "id2unit example_vocab 2 = Inr ''a'' \<and> id2unit example_vocab (- 4) = Inr PAD
   \<and> id2unit example_vocab 4 = Inl IndexError \<and> id2unit example_vocab (- 5) = Inl IndexError"
  using id2unit_range [of example_vocab 2] id2unit_range [of example_vocab "- 4"]
    id2unit_range [of example_vocab 4] id2unit_range [of example_vocab "- 5"]
  by (simp add: example_vocab_def vocab_len_def)

section \<open>Properties of ComposedVocab\<close>

lemma build_feats_vocab:
  "build_vocab ''|'' True 0 [[[''Case=Nom|Number=Sing''], [''_'']]] = Inr feats_vocab"
  by code_simp

text \<open>
  Claim C2. In keyed mode a sub-value never seen at build time, at a known key, should
  encode to sub-id 0. The source reads \<open>self._unit2id[k][x]\<close> without a default (the
  positional branch uses \<open>.get(parts[i], 0)\<close>), so the encode raises \<open>KeyError\<close>:
  on the vocabulary built from \<open>Case=Nom|Number=Sing\<close> and \<open>_\<close>, encoding
  \<open>Case=Gen\<close> fails.
\<close>

theorem keyed_unknown_value_KeyError:
  "build_vocab ''|'' True 0 [[[''Case=Nom|Number=Sing''], [''_'']]] = Inr feats_vocab
   \<and> composed_unit2id feats_vocab ''Case=Gen'' = Inl KeyError"
  by code_simp

lemma list_comp_map:
  "(\<And>x. x \<in> set xs \<Longrightarrow> f x = Inr (g x)) \<Longrightarrow> list_comp f xs = Inr (map g xs)"
  by (induction xs) simp_all

lemma dict_in_keys: "dict_in k d = (k \<in> fst ` set d)"
  by (simp add: dict_in_def map_of_eq_None_iff)

lemma ensure_key_positional:
  assumes "map fst d = map Idx [0 ..< n]" and "i \<le> n"
  shows "map fst (ensure_key (Idx i) d) = map Idx [0 ..< max n (Suc i)]"
proof (cases "i < n")
  case True
  then have "Idx i \<in> fst ` set d"
    using assms(1) by (metis (no_types, lifting) atLeastLessThan_iff imageI list.set_map set_upt zero_le)
  moreover from True have "max n (Suc i) = n" by simp
  ultimately show ?thesis using assms(1) by (simp add: ensure_key_def dict_in_keys)
next
  case False
  with assms(2) have e: "i = n" by simp
  have "Idx n \<notin> set (map fst d)" unfolding assms(1) by auto
  then have notin: "Idx n \<notin> fst ` set d" by simp
  then have "ensure_key (Idx n) d = AList.update (Idx n) VOCAB_PREFIX d"
    by (simp add: ensure_key_def dict_in_keys)
  with notin have "map fst (ensure_key (Idx n) d) = map fst d @ [Idx n]"
    by (simp add: update_keys)
  also have "\<dots> = map Idx [0 ..< Suc n]" by (simp add: assms(1))
  finally show ?thesis using e by (simp add: max_def)
qed

lemma append_new_keys: "map fst (append_new k v d) = map fst d"
proof (cases "map_of d k")
  case None
  then show ?thesis by (simp add: append_new_def)
next
  case (Some us)
  then have "k \<in> fst ` set d" by (metis map_of_eq_None_iff option.distinct(1))
  with Some show ?thesis by (simp add: append_new_def update_keys)
qed

lemma add_positional_keys:
  "map fst d = map Idx [0 ..< n] \<Longrightarrow> i \<le> n \<Longrightarrow>
   map fst (add_positional (i, p) d) = map Idx [0 ..< max n (Suc i)]"
  by (simp add: add_positional_def append_new_keys ensure_key_positional)

lemma fold_add_positional_keys:
  "map fst d = map Idx [0 ..< n] \<Longrightarrow> k \<le> n \<Longrightarrow>
   map fst (fold add_positional (enumerate k ps) d) = map Idx [0 ..< max n (k + length ps)]"
proof (induction ps arbitrary: k n d)
  case Nil
  then show ?case by (simp add: max_def)
next
  case (Cons p ps)
  have "map fst (add_positional (k, p) d) = map Idx [0 ..< max n (Suc k)]"
    using Cons.prems by (rule add_positional_keys)
  moreover have "Suc k \<le> max n (Suc k)" by simp
  ultimately have "map fst (fold add_positional (enumerate (Suc k) ps) (add_positional (k, p) d))
      = map Idx [0 ..< max (max n (Suc k)) (Suc k + length ps)]"
    by (rule Cons.IH)
  then show ?case by (simp add: max_def)
qed

lemma fold_units_positional_keys:
  "map fst d = map Idx [0 ..< n] \<Longrightarrow>
   \<exists>m. map fst (fold (\<lambda>p d. fold add_positional (enumerate 0 (parts_list p)) d) allparts d)
        = map Idx [0 ..< m]"
proof (induction allparts arbitrary: n d)
  case Nil
  then show ?case by auto
next
  case (Cons p allparts)
  have "map fst (fold add_positional (enumerate 0 (parts_list p)) d)
          = map Idx [0 ..< max n (0 + length (parts_list p))]"
    using Cons.prems by (rule fold_add_positional_keys) simp
  from Cons.IH [OF this] show ?case by simp
qed

lemma build_positional_keys:
  assumes "build_positional sp allunits = Inr d"
  shows "\<exists>m. map fst d = map Idx [0 ..< m]"
proof -
  have e: "map fst ([] :: (field_key, string list) dict) = map Idx [0 ..< 0]" by simp
  from assms fold_units_positional_keys [OF e] show ?thesis
    by (auto simp: build_positional_def split: sum.splits if_splits)
qed

lemma build_vocab_positional_fields:
  assumes "build_vocab sp False idx data = Inr V"
  shows "sep V = sp \<and> \<not> keyed V \<and> length (cunit2id_tbl V) = length (cid2unit_tbl V)
         \<and> (\<exists>m. map fst (cunit2id_tbl V) = map Idx [0 ..< m])"
proof -
  from assms obtain allunits d where d: "build_positional sp allunits = Inr d"
    and V: "V = \<lparr>sep = sp, keyed = False, cid2unit_tbl = d,
                 cunit2id_tbl = map (\<lambda>(k, us). (k, enumerate_dict us)) d\<rparr>"
    by (auto simp: build_vocab_def split: sum.splits)
  from build_positional_keys [OF d] obtain m where "map fst d = map Idx [0 ..< m]" ..
  moreover have "map fst (map (\<lambda>(k, us). (k, enumerate_dict us)) d) = map fst d"
    by (induction d) auto
  ultimately show ?thesis using V by auto
qed

lemma unit2parts_positional: "\<exists>ps. unit2parts sp False unit = Inr (PartList ps)"
  by (simp add: unit2parts_def Let_def)

text \<open>
  Claim C3. In positional mode, on a vocabulary that \<open>build_vocab\<close> has built, encoding
  any unit returns a flat sequence with one sub-id per field of the build (the number
  of entries of the table), and every field index at or beyond the number of parts of
  the unit holds sub-id 0. The witness is the example of the specification: built over
  \<open>ab\<close> and \<open>abc\<close>, the unit \<open>a\<close> encodes to \<open>[1, 0, 0]\<close>.
\<close>

theorem positional_encode_fixed_length:
  assumes "build_vocab sp False idx data = Inr V"
  shows "\<exists>ps ids. unit2parts (sep V) (keyed V) unit = Inr (PartList ps)
           \<and> composed_unit2id V unit = Inr (Flat ids)
           \<and> length ids = length (cid2unit_tbl V)
           \<and> (\<forall>i. length ps \<le> i \<and> i < length ids \<longrightarrow> ids ! i = 0)"
proof -
  from build_vocab_positional_fields [OF assms] obtain m where
    k: "\<not> keyed V" and l: "length (cunit2id_tbl V) = length (cid2unit_tbl V)"
    and m: "map fst (cunit2id_tbl V) = map Idx [0 ..< m]" by blast
  from unit2parts_positional obtain ps where ps: "unit2parts (sep V) False unit = Inr (PartList ps)"
    by blast
  from m have lm: "length (cunit2id_tbl V) = m" by (metis length_map length_upt minus_nat.diff_0)
  define g where "g i = (if i < length ps
      then (case map_of (the (map_of (cunit2id_tbl V) (Idx i))) (ps ! i) of None \<Rightarrow> 0 | Some j \<Rightarrow> j)
      else 0)" for i
  have "positional_entry (cunit2id_tbl V) ps i = Inr (g i)" if "i \<in> set [0 ..< m]" for i
  proof -
    from that have "Idx i \<in> set (map fst (cunit2id_tbl V))" unfolding m by simp
    then have "map_of (cunit2id_tbl V) (Idx i) \<noteq> None" by (simp add: map_of_eq_None_iff)
    then show ?thesis by (auto simp: positional_entry_def dict_getitem_def g_def)
  qed
  then have "list_comp (positional_entry (cunit2id_tbl V) ps) [0 ..< m] = Inr (map g [0 ..< m])"
    by (rule list_comp_map)
  with k ps lm have "composed_unit2id V unit = Inr (Flat (map g [0 ..< m]))"
    by (simp add: composed_unit2id_def)
  moreover have "\<forall>i. length ps \<le> i \<and> i < length (map g [0 ..< m]) \<longrightarrow> map g [0 ..< m] ! i = 0"
    by (simp add: g_def)
  ultimately show ?thesis using k ps l lm by auto
qed

lemma build_chars_vocab: "build_vocab [] False 0 [[[''ab''], [''abc'']]] = Inr chars_vocab"
  by code_simp

theorem positional_encode_fixed_length_witness:
  "build_vocab [] False 0 [[[''ab''], [''abc'']]] = Inr chars_vocab
   \<and> composed_unit2id chars_vocab ''a'' = Inr (Flat [1, 0, 0])
   \<and> (\<exists>ps ids. unit2parts (sep chars_vocab) (keyed chars_vocab) ''a'' = Inr (PartList ps)
           \<and> composed_unit2id chars_vocab ''a'' = Inr (Flat ids)
           \<and> length ids = length (cid2unit_tbl chars_vocab)
           \<and> (\<forall>i. length ps \<le> i \<and> i < length ids \<longrightarrow> ids ! i = 0))"
proof -
  have b: "build_vocab [] False 0 [[[''ab''], [''abc'']]] = Inr chars_vocab"
    by (rule build_chars_vocab)
  have e: "composed_unit2id chars_vocab ''a'' = Inr (Flat [1, 0, 0])" by code_simp
  from positional_encode_fixed_length [OF b, of "''a''"] b e show ?thesis by blast
qed

lemma str_split_placeholder: "sp \<noteq> [] \<Longrightarrow> sp \<noteq> ''_'' \<Longrightarrow> str_split ''_'' sp = [''_'']"
  by (cases sp) (auto simp: str_split_def)

lemma unit2parts_placeholder: "sp \<noteq> ''_'' \<Longrightarrow> unit2parts sp True ''_'' = Inr (PartDict [])"
  by (cases "sp = []") (simp_all add: unit2parts_def str_split_placeholder)

lemma keyed_entry_known:
  assumes "\<And>vs. map_of pd (fst kt) = Some vs \<Longrightarrow> \<forall>v \<in> set vs. dict_in v (snd kt)"
  shows "keyed_entry pd kt =
     Inr (case map_of pd (fst kt) of None \<Rightarrow> [0] | Some vs \<Rightarrow> map (\<lambda>v. the (map_of (snd kt) v)) vs)"
proof (cases "map_of pd (fst kt)")
  case None
  then show ?thesis by (simp add: keyed_entry_def)
next
  case (Some vs)
  from assms [OF Some] have "\<And>v. v \<in> set vs \<Longrightarrow> dict_getitem (snd kt) v = Inr (the (map_of (snd kt) v))"
    by (auto simp: dict_in_def dict_getitem_def)
  then have "list_comp (dict_getitem (snd kt)) vs = Inr (map (\<lambda>v. the (map_of (snd kt) v)) vs)"
    by (rule list_comp_map)
  with Some show ?thesis by (simp add: keyed_entry_def)
qed

text \<open>
  What the keyed encode does when every value the unit carries at a known key is in
  that key's table: it returns one entry per known field key, in the key order of the
  table, the sub-ids of the values the unit carries at that key, or \<open>[0]\<close> when the
  unit does not carry the key; the placeholder unit \<open>_\<close> encodes to \<open>[0]\<close> for every
  known field.
\<close>

lemma keyed_encode_known_values:
  assumes "keyed V"
    and "unit2parts (sep V) True unit = Inr (PartDict pd)"
    and "\<forall>kt \<in> set (cunit2id_tbl V). \<forall>vs. map_of pd (fst kt) = Some vs \<longrightarrow> (\<forall>v \<in> set vs. dict_in v (snd kt))"
  shows "composed_unit2id V unit =
           Inr (Nested (map (\<lambda>kt. case map_of pd (fst kt) of
                                      None \<Rightarrow> [0]
                                    | Some vs \<Rightarrow> map (\<lambda>v. the (map_of (snd kt) v)) vs)
                          (cunit2id_tbl V)))
         \<and> (sep V \<noteq> ''_'' \<longrightarrow>
              unit2parts (sep V) True ''_'' = Inr (PartDict [])
              \<and> composed_unit2id V ''_'' = Inr (Nested (map (\<lambda>kt. [0]) (cunit2id_tbl V))))"
proof -
  let ?row = "\<lambda>kt. case map_of pd (fst kt) of
                     None \<Rightarrow> [0] | Some vs \<Rightarrow> map (\<lambda>v. the (map_of (snd kt) v)) vs"
  have "keyed_entry pd kt = Inr (?row kt)" if "kt \<in> set (cunit2id_tbl V)" for kt
    using assms(3) that by (intro keyed_entry_known) blast
  then have "list_comp (keyed_entry pd) (cunit2id_tbl V) = Inr (map ?row (cunit2id_tbl V))"
    by (rule list_comp_map)
  with assms(1,2) have a: "composed_unit2id V unit = Inr (Nested (map ?row (cunit2id_tbl V)))"
    by (simp add: composed_unit2id_def)
  have "list_comp (keyed_entry []) (cunit2id_tbl V) = Inr (map (\<lambda>kt. [0]) (cunit2id_tbl V))"
    by (rule list_comp_map) (simp add: keyed_entry_def)
  with assms(1) have b: "composed_unit2id V ''_'' = Inr (Nested (map (\<lambda>kt. [0]) (cunit2id_tbl V)))"
    if "sep V \<noteq> ''_''"
    using that by (simp add: composed_unit2id_def unit2parts_placeholder)
  from a b show ?thesis by (simp add: unit2parts_placeholder)
qed

lemma keyed_encode_known_values_example:
  "keyed feats_vocab
   \<and> unit2parts (sep feats_vocab) True ''Number=Sing'' = Inr (PartDict [(Name ''Number'', [''Sing''])])
   \<and> composed_unit2id feats_vocab ''Number=Sing'' = Inr (Nested [[0], [1]])
   \<and> composed_unit2id feats_vocab ''_'' = Inr (Nested [[0], [0]])"
proof -
  have k: "keyed feats_vocab" by (simp add: feats_vocab_def)
  have p: "unit2parts (sep feats_vocab) True ''Number=Sing'' = Inr (PartDict [(Name ''Number'', [''Sing''])])"
    by code_simp
  have h: "\<forall>kt \<in> set (cunit2id_tbl feats_vocab). \<forall>vs.
             map_of [(Name ''Number'', [''Sing''])] (fst kt) = Some vs \<longrightarrow> (\<forall>v \<in> set vs. dict_in v (snd kt))"
    by (simp add: feats_vocab_def dict_in_def PAD_def)
  have s: "sep feats_vocab \<noteq> ''_''" by (simp add: feats_vocab_def)
  from keyed_encode_known_values [OF k p h] s k p show ?thesis
    by (simp add: feats_vocab_def PAD_def)
qed

text \<open>
  Claim C4. In keyed mode encoding any unit should yield one entry per field key known
  at build time: the sub-ids of the values the unit carries at that key, or \<open>[0]\<close>
  when the key is absent. On the vocabulary built from \<open>Case=Nom|Number=Sing\<close> and
  \<open>_\<close> the placeholder \<open>_\<close> does encode to \<open>[0]\<close> for both fields, but the attribute
  list \<open>Case=Gen\<close>, which decomposes into the attribute \<open>Case\<close> with the value
  \<open>Gen\<close>, yields no entries: the read \<open>self._unit2id[k][x]\<close> has no default and
  raises \<open>KeyError\<close>, where the positional branch uses \<open>.get(parts[i], 0)\<close>.
\<close>

theorem keyed_encode_unseen_value_no_entries:
  "build_vocab ''|'' True 0 [[[''Case=Nom|Number=Sing''], [''_'']]] = Inr feats_vocab
   \<and> composed_unit2id feats_vocab ''_'' = Inr (Nested [[0], [0]])
   \<and> unit2parts (sep feats_vocab) (keyed feats_vocab) ''Case=Gen''
       = Inr (PartDict [(Name ''Case'', [''Gen''])])
   \<and> map fst (cunit2id_tbl feats_vocab) = [Name ''Case'', Name ''Number'']
   \<and> composed_unit2id feats_vocab ''Case=Gen'' = Inl KeyError"
  by code_simp

section \<open>Properties of Seq2SeqModel.predict_greedy\<close>

lemma fold_greedy_example:
  assumes "\<forall>i<B. \<not> done_list st ! i" and "length (output_seqs st) = B" and "j \<le> B"
  shows "dec (fold (greedy_example eos preds) [0 ..< j] st) = dec st
    \<and> done_list (fold (greedy_example eos preds) [0 ..< j] st) = done_list st
    \<and> total_done (fold (greedy_example eos preds) [0 ..< j] st)
        = total_done st + length (filter (\<lambda>i. preds i = eos) [0 ..< j])
    \<and> output_seqs (fold (greedy_example eos preds) [0 ..< j] st)
        = map (\<lambda>i. output_seqs st ! i @ (if i < j \<and> preds i \<noteq> eos then [preds i] else []))
            [0 ..< B]"
  using assms(3)
proof (induction j)
  case 0
  from assms(2) have "output_seqs st = map (\<lambda>i. output_seqs st ! i) [0 ..< B]"
    using map_nth [of "output_seqs st"] by simp
  then show ?case by simp
next
  case (Suc j)
  let ?st = "fold (greedy_example eos preds) [0 ..< j] st"
  from Suc have IH: "dec ?st = dec st" "done_list ?st = done_list st"
    "total_done ?st = total_done st + length (filter (\<lambda>i. preds i = eos) [0 ..< j])"
    "output_seqs ?st
        = map (\<lambda>i. output_seqs st ! i @ (if i < j \<and> preds i \<noteq> eos then [preds i] else []))
            [0 ..< B]"
    by simp_all
  from Suc.prems have jB: "j < B" by simp
  with assms(1) IH(2) have nd: "\<not> done_list ?st ! j" by simp
  have f: "fold (greedy_example eos preds) [0 ..< Suc j] st = greedy_example eos preds j ?st"
    by simp
  show ?case
  proof (cases "preds j = eos")
    case True
    with nd have g: "greedy_example eos preds j ?st = ?st\<lparr>total_done := total_done ?st + 1\<rparr>"
      by (simp add: greedy_example_def)
    have "map (\<lambda>i. output_seqs st ! i @ (if i < j \<and> preds i \<noteq> eos then [preds i] else [])) [0 ..< B]
        = map (\<lambda>i. output_seqs st ! i @ (if i < Suc j \<and> preds i \<noteq> eos then [preds i] else [])) [0 ..< B]"
      using True by (auto simp: less_Suc_eq)
    with IH True show ?thesis unfolding f g by simp
  next
    case False
    with nd have g: "greedy_example eos preds j ?st
        = ?st\<lparr>output_seqs := (output_seqs ?st)[j := output_seqs ?st ! j @ [preds j]]\<rparr>"
      by (simp add: greedy_example_def Let_def)
    have "(output_seqs ?st)[j := output_seqs ?st ! j @ [preds j]]
        = map (\<lambda>i. output_seqs st ! i @ (if i < Suc j \<and> preds i \<noteq> eos then [preds i] else [])) [0 ..< B]"
      unfolding IH(4) using jB False
      by (auto simp: list_eq_iff_nth_eq nth_list_update less_Suc_eq)
    with IH False show ?thesis unfolding f g by simp
  qed
qed

lemma greedy_inv_step:
  assumes "greedy_inv decode eos B d m st" and "decode (dec st) = (preds, d')"
  shows "greedy_inv decode eos B d (Suc m)
           (fold (greedy_example eos preds) [0 ..< B] (st\<lparr>dec := d'\<rparr>))"
proof -
  let ?st = "st\<lparr>dec := d'\<rparr>"
  from assms(1) have a: "\<forall>i<B. \<not> done_list ?st ! i" and b: "length (output_seqs ?st) = B"
    by (simp_all add: greedy_inv_def)
  note F = fold_greedy_example [OF a b order_refl, of eos preds]
  from assms have p: "preds = preds_at decode d m" and d': "d' = dec_after decode d (Suc m)"
    by (simp_all add: greedy_inv_def preds_at_def dec_after_def)
  have "output_seqs (fold (greedy_example eos preds) [0 ..< B] ?st)
      = map (\<lambda>i. filter (\<lambda>t. t \<noteq> eos) (map (\<lambda>k. preds_at decode d k i) [0 ..< Suc m])) [0 ..< B]"
    using F assms(1) by (simp add: greedy_inv_def p)
  moreover have "total_done (fold (greedy_example eos preds) [0 ..< B] ?st)
      = (\<Sum>k<Suc m. eos_count eos B (preds_at decode d k))"
    using F assms(1) by (simp add: greedy_inv_def p eos_count_def)
  ultimately show ?thesis using F assms(1) d' by (simp add: greedy_inv_def)
qed

lemma greedy_loop_inv:
  "greedy_inv decode eos B d m st \<Longrightarrow> m \<le> M \<Longrightarrow>
   greedy_loop decode eos B M m st = (n, st') \<Longrightarrow>
   n \<le> M \<and> greedy_inv decode eos B d n st' \<and> (n = M \<or> B \<le> total_done st')"
proof (induction decode eos B M m st rule: greedy_loop.induct)
  case (1 decode eos B M m st)
  show ?case
  proof (cases "total_done st < B \<and> m < M")
    case True
    obtain preds d' where dd: "decode (dec st) = (preds, d')" by (cases "decode (dec st)")
    let ?st = "fold (greedy_example eos preds) [0 ..< B] (st\<lparr>dec := d'\<rparr>)"
    have i: "greedy_inv decode eos B d (m + 1) ?st"
      using greedy_inv_step [OF "1.prems"(1) dd] by simp
    have l: "greedy_loop decode eos B M (m + 1) ?st = (n, st')"
      using "1.prems"(3) True dd by simp
    from True have "m + 1 \<le> M" by simp
    from "1.IH" [OF True dd [symmetric] i this l] show ?thesis .
  next
    case False
    with "1.prems" show ?thesis by auto
  qed
qed

lemma greedy_inv_init: "greedy_inv decode eos B d 0 (greedy_init B d)"
  by (simp add: greedy_inv_def greedy_init_def dec_after_def map_replicate_trivial)

text \<open>
  Claim C10. A run of \<open>predict_greedy\<close> takes \<open>n\<close> steps, at most \<open>max_dec_len\<close>.
  The flag of an example is never set: every flag is \<open>False\<close> at the end. So the
  output sequence of an example holds every token other than \<open>eos\<close> that is predicted
  for it at any of the \<open>n\<close> steps, also after an \<open>eos\<close> of the same example; the
  counter \<open>total_done\<close> holds the number of all \<open>eos\<close> predictions of all examples
  and steps, repeats on one example included; and the loop ends before
  \<open>max_dec_len\<close> steps only when that counter has reached the batch size. In the
  witness example 0 is predicted \<open>eos, 7, eos\<close>: the run ends after three steps with
  outputs \<open>[7]\<close> and \<open>[5, 5, 6]\<close>, the second example never having predicted
  \<open>eos\<close>.
\<close>

theorem predict_greedy_done_never_set:
  assumes "greedy_run decode eos B M d = (n, st)"
  shows "n \<le> M \<and> (n = M \<or> B \<le> total_done st)
    \<and> done_list st = replicate B False
    \<and> total_done st = (\<Sum>k<n. eos_count eos B (preds_at decode d k))
    \<and> predict_greedy decode eos B M d =
        map (\<lambda>i. filter (\<lambda>t. t \<noteq> eos) (map (\<lambda>k. preds_at decode d k i) [0 ..< n])) [0 ..< B]"
proof -
  from assms have "greedy_loop decode eos B M 0 (greedy_init B d) = (n, st)"
    by (simp add: greedy_run_def)
  from greedy_loop_inv [OF greedy_inv_init _ this]
  have n: "n \<le> M" and i: "greedy_inv decode eos B d n st" and e: "n = M \<or> B \<le> total_done st"
    by simp_all
  have "predict_greedy decode eos B M d = output_seqs st"
    using assms by (simp add: predict_greedy_def)
  with i have "predict_greedy decode eos B M d =
        map (\<lambda>i. filter (\<lambda>t. t \<noteq> eos) (map (\<lambda>k. preds_at decode d k i) [0 ..< n])) [0 ..< B]"
    by (simp add: greedy_inv_def)
  moreover from i have "done_list st = replicate B False"
    and "total_done st = (\<Sum>k<n. eos_count eos B (preds_at decode d k))"
    by (simp_all add: greedy_inv_def)
  ultimately show ?thesis using n e by blast
qed

theorem predict_greedy_done_never_set_witness:
  "greedy_run table_decode 3 2 4 0 =
     (3, \<lparr>dec = 3, done_list = [False, False], total_done = 2, output_seqs = [[7], [5, 5, 6]]\<rparr>)
   \<and> predict_greedy table_decode 3 2 4 0 = [[7], [5, 5, 6]]
   \<and> map (\<lambda>i. map (\<lambda>k. preds_at table_decode 0 k i) [0 ..< 3]) [0 ..< 2] = [[3, 7, 3], [5, 5, 6]]
   \<and> (\<Sum>k<3. eos_count 3 2 (preds_at table_decode 0 k)) = 2"
proof -
  have r: "greedy_run table_decode 3 2 4 0 =
     (3, \<lparr>dec = 3, done_list = [False, False], total_done = 2, output_seqs = [[7], [5, 5, 6]]\<rparr>)"
    by code_simp
  have p: "map (\<lambda>i. map (\<lambda>k. preds_at table_decode 0 k i) [0 ..< 3]) [0 ..< 2] = [[3, 7, 3], [5, 5, 6]]"
    by code_simp
  from predict_greedy_done_never_set [OF r]
  have c: "(\<Sum>k<3. eos_count 3 2 (preds_at table_decode 0 k)) = 2" by simp
  have q: "predict_greedy table_decode 3 2 4 0 = [[7], [5, 5, 6]]"
    using r by (simp add: predict_greedy_def)
  from r q p c show ?thesis by (intro conjI)
qed

section \<open>Properties of Seq2SeqModel.predict\<close>

lemma product_snoc: "List.product (xs @ [x]) ys = List.product xs ys @ map (Pair x) ys"
  by (induction xs) simp_all

lemma fold_advance_one:
  "advanced (fst (fold (advance_one m i lp) [0 ..< j] (st, dn)))
      = advanced st @ map (\<lambda>b. (i, b, fst (advance m (beam st ! b) (lp b)))) [0 ..< j]
   \<and> snd (fold (advance_one m i lp) [0 ..< j] (st, dn))
      = dn @ filter (\<lambda>b. fst (advance m (beam st ! b) (lp b))) [0 ..< j]
   \<and> (\<forall>b\<ge>j. beam (fst (fold (advance_one m i lp) [0 ..< j] (st, dn))) ! b = beam st ! b)"
proof (induction j)
  case 0
  show ?case by simp
next
  case (Suc j)
  obtain st1 dn1 where f: "fold (advance_one m i lp) [0 ..< j] (st, dn) = (st1, dn1)"
    by (cases "fold (advance_one m i lp) [0 ..< j] (st, dn)")
  with Suc have a: "advanced st1
        = advanced st @ map (\<lambda>b. (i, b, fst (advance m (beam st ! b) (lp b)))) [0 ..< j]"
    and d: "dn1 = dn @ filter (\<lambda>b. fst (advance m (beam st ! b) (lp b))) [0 ..< j]"
    and b: "\<forall>b\<ge>j. beam st1 ! b = beam st ! b"
    by simp_all
  from b have bj: "beam st1 ! j = beam st ! j" by simp
  obtain is_done bm where adv: "advance m (beam st ! j) (lp j) = (is_done, bm)"
    by (cases "advance m (beam st ! j) (lp j)")
  have s: "fold (advance_one m i lp) [0 ..< Suc j] (st, dn) = advance_one m i lp j (st1, dn1)"
    using f by simp
  have "advance_one m i lp j (st1, dn1) =
      (st1\<lparr>beam := (beam st1)[j := bm], hidden := update_state m (hidden st1) j bm,
           advanced := advanced st1 @ [(i, j, is_done)]\<rparr>,
       if is_done then dn1 @ [j] else dn1)"
    by (simp add: advance_one_def bj adv)
  with s a d b adv show ?case by simp
qed

lemma filter_all_length: "length (filter P xs) = length xs \<longleftrightarrow> (\<forall>x \<in> set xs. P x)"
proof
  assume l: "length (filter P xs) = length xs"
  show "\<forall>x \<in> set xs. P x"
  proof
    fix x assume "x \<in> set xs"
    then show "P x" using length_filter_less [of x xs P] l by auto
  qed
next
  assume "\<forall>x \<in> set xs. P x"
  then show "length (filter P xs) = length xs" by simp
qed

lemma predict_loop_calls:
  assumes "map (\<lambda>(i, b, d). (i, b)) (advanced st) = List.product [0 ..< k] [0 ..< B]"
    and "\<forall>j<k. \<exists>b<B. (j, b, False) \<in> set (advanced st)"
    and "k \<le> M"
  shows "\<exists>n. k \<le> n \<and> n \<le> M
     \<and> map (\<lambda>(i, b, d). (i, b)) (advanced (predict_loop m B [k ..< M] st))
         = List.product [0 ..< n] [0 ..< B]
     \<and> (\<forall>j. Suc j < n \<longrightarrow> (\<exists>b<B. (j, b, False) \<in> set (advanced (predict_loop m B [k ..< M] st))))
     \<and> (n < M \<longrightarrow> k < n \<and> (\<forall>b<B. (n - 1, b, True) \<in> set (advanced (predict_loop m B [k ..< M] st))))"
  using assms
proof (induction "M - k" arbitrary: k st)
  case 0
  then have "k = M" by simp
  with "0.prems" show ?case by auto
next
  case (Suc d)
  then have kM: "k < M" by simp
  then have u: "[k ..< M] = k # [Suc k ..< M]" by (simp add: upt_conv_Cons)
  obtain lp h where dc: "decode_beams m (hidden st) (beam st) = (lp, h)"
    by (cases "decode_beams m (hidden st) (beam st)")
  let ?s0 = "st\<lparr>hidden := h\<rparr>"
  let ?F = "\<lambda>b. fst (advance m (beam ?s0 ! b) (lp b))"
  obtain st' dn where f: "fold (advance_one m k lp) [0 ..< B] (?s0, []) = (st', dn)"
    by (cases "fold (advance_one m k lp) [0 ..< B] (?s0, [])")
  from fold_advance_one [of m k lp B ?s0 "[]"] f
  have a: "advanced st' = advanced st @ map (\<lambda>b. (k, b, ?F b)) [0 ..< B]"
    and dn: "dn = filter ?F [0 ..< B]"
    by simp_all
  have p: "map (\<lambda>(i, b, d). (i, b)) (advanced st') = List.product [0 ..< Suc k] [0 ..< B]"
    using Suc.prems(1) by (simp add: a product_snoc o_def)
  have l: "predict_loop m B [k ..< M] st
      = (if length dn = B then st' else predict_loop m B [Suc k ..< M] st')"
    unfolding u by (simp add: dc f)
  show ?case
  proof (cases "length dn = B")
    case True
    then have "\<forall>b \<in> set [0 ..< B]. ?F b"
      using filter_all_length [of ?F "[0 ..< B]"] dn by simp
    then have t: "\<forall>b<B. (k, b, True) \<in> set (advanced st')"
      by (auto simp: a image_iff)
    have e: "\<forall>j. Suc j < Suc k \<longrightarrow> (\<exists>b<B. (j, b, False) \<in> set (advanced st'))"
      using Suc.prems(2) by (auto simp: a)
    from True l have "predict_loop m B [k ..< M] st = st'" by simp
    with p e t kM show ?thesis by (intro exI [of _ "Suc k"]) simp
  next
    case False
    then have "\<not> (\<forall>b \<in> set [0 ..< B]. ?F b)"
      using filter_all_length [of ?F "[0 ..< B]"] dn by simp
    then obtain b where b: "b < B" "\<not> ?F b" by auto
    then have "(k, b, False) \<in> set (advanced st')" by (auto simp: a image_iff)
    with b Suc.prems(2) have e: "\<forall>j<Suc k. \<exists>b<B. (j, b, False) \<in> set (advanced st')"
      by (auto simp: a less_Suc_eq)
    from Suc.hyps(2) kM have d: "d = M - Suc k" by simp
    from kM have "Suc k \<le> M" by simp
    from Suc.hyps(1) [OF d p e this] obtain n where n: "Suc k \<le> n" "n \<le> M"
      "map (\<lambda>(i, b, d). (i, b)) (advanced (predict_loop m B [Suc k ..< M] st'))
         = List.product [0 ..< n] [0 ..< B]"
      "\<forall>j. Suc j < n \<longrightarrow> (\<exists>b<B. (j, b, False) \<in> set (advanced (predict_loop m B [Suc k ..< M] st')))"
      "n < M \<longrightarrow> Suc k < n \<and> (\<forall>b<B. (n - 1, b, True) \<in> set (advanced (predict_loop m B [Suc k ..< M] st')))"
      by blast
    from False l have "predict_loop m B [k ..< M] st = predict_loop m B [Suc k ..< M] st'" by simp
    with n show ?thesis by (intro exI [of _ n]) auto
  qed
qed

text \<open>
  Claim C9, as stated: once a beam has returned the early-exit signal, \<open>advance\<close> is
  never called on it again. The loop empties \<open>done\<close> at every step and advances every
  beam of the batch: with two beams of which the first returns the signal at step 0 and
  the second does not, the first beam is advanced again at step 1.
\<close>

theorem predict_advances_done_beam_counterexample:
  "advanced (predict_run script_model 2 2 [(False, [3, 7]), (False, [5, 5])] ())
     = [(0, 0, True), (0, 1, False), (1, 0, True), (1, 1, False)]
   \<and> advanced_after_done (advanced (predict_run script_model 2 2 [(False, [3, 7]), (False, [5, 5])] ()))"
  by code_simp

text \<open>
  Claim C9, amended: the main loop runs \<open>n\<close> steps, at most \<open>max_dec_len\<close>, and at
  each of them calls \<open>advance\<close> on every beam of the batch, in order, whether or not
  the beam has returned the early-exit signal before; every step that is followed by
  another had a beam that did not return the signal, and the loop ends before
  \<open>max_dec_len\<close> steps only after a step at which every beam returned it.
\<close>

theorem predict_advances_every_beam:
  "\<exists>n\<le>M.
     map (\<lambda>(i, b, d). (i, b)) (advanced (predict_run m B M beams h))
       = List.product [0 ..< n] [0 ..< B]
     \<and> (\<forall>j. Suc j < n \<longrightarrow> (\<exists>b<B. (j, b, False) \<in> set (advanced (predict_run m B M beams h))))
     \<and> (n < M \<longrightarrow> 0 < n \<and> (\<forall>b<B. (n - 1, b, True) \<in> set (advanced (predict_run m B M beams h))))"
proof -
  let ?st = "\<lparr>beam = beams, hidden = h, advanced = []\<rparr>"
  have "map (\<lambda>(i, b, d). (i, b)) (advanced ?st) = List.product [0 ..< 0] [0 ..< B]" by simp
  moreover have "\<forall>j<0. \<exists>b<B. (j, b, False) \<in> set (advanced ?st)" by simp
  ultimately obtain n where "n \<le> M"
    "map (\<lambda>(i, b, d). (i, b)) (advanced (predict_loop m B [0 ..< M] ?st)) = List.product [0 ..< n] [0 ..< B]"
    "\<forall>j. Suc j < n \<longrightarrow> (\<exists>b<B. (j, b, False) \<in> set (advanced (predict_loop m B [0 ..< M] ?st)))"
    "n < M \<longrightarrow> 0 < n \<and> (\<forall>b<B. (n - 1, b, True) \<in> set (advanced (predict_loop m B [0 ..< M] ?st)))"
    using predict_loop_calls [of ?st 0 B M m] by blast
  then show ?thesis unfolding predict_run_def by blast
qed

theorem predict_advances_every_beam_witness:
  "advanced (predict_run script_model 2 5 [(False, [3, 7]), (False, [5, 3, 4])] ())
     = [(0, 0, True), (0, 1, False), (1, 0, True), (1, 1, True)]
   \<and> (\<exists>n\<le>5. map (\<lambda>(i, b, d). (i, b))
              (advanced (predict_run script_model 2 5 [(False, [3, 7]), (False, [5, 3, 4])] ()))
            = List.product [0 ..< n] [0 ..< 2]
          \<and> n < 5 \<and> 0 < n)"
proof -
  have r: "advanced (predict_run script_model 2 5 [(False, [3, 7]), (False, [5, 3, 4])] ())
     = [(0, 0, True), (0, 1, False), (1, 0, True), (1, 1, True)]"
    by code_simp
  from predict_advances_every_beam [of 5 script_model 2 "[(False, [3, 7]), (False, [5, 3, 4])]" "()"]
  obtain n where n: "n \<le> 5"
    "map (\<lambda>(i, b, d). (i, b))
       (advanced (predict_run script_model 2 5 [(False, [3, 7]), (False, [5, 3, 4])] ()))
     = List.product [0 ..< n] [0 ..< 2]"
    "n < 5 \<longrightarrow> 0 < n"
    by blast
  have "length (map (\<lambda>(i, b, d). (i, b))
       (advanced (predict_run script_model 2 5 [(False, [3, 7]), (False, [5, 3, 4])] ()))) = 4"
    by (simp add: r)
  then have "length (List.product [0 ..< n] [0 ..< 2]) = 4" unfolding n(2) .
  then have "n * 2 = 4" by simp
  then have "n = 2" by arith
  with n(2) have m: "map (\<lambda>(i, b, d). (i, b))
       (advanced (predict_run script_model 2 5 [(False, [3, 7]), (False, [5, 3, 4])] ()))
     = List.product [0 ..< 2] [0 ..< 2]" by simp
  have "\<exists>n\<le>5. map (\<lambda>(i, b, d). (i, b))
              (advanced (predict_run script_model 2 5 [(False, [3, 7]), (False, [5, 3, 4])] ()))
            = List.product [0 ..< n] [0 ..< 2]
          \<and> n < 5 \<and> 0 < n"
  proof (intro exI [of _ "2::nat"] conjI)
    show "map (\<lambda>(i, b, d). (i, b))
              (advanced (predict_run script_model 2 5 [(False, [3, 7]), (False, [5, 3, 4])] ()))
            = List.product [0 ..< 2] [0 ..< 2]" by (rule m)
  qed simp_all
  with r show ?thesis by (intro conjI)
qed

section \<open>Properties of Vocab.save and Vocab.load\<close>

lemma object_pickle_roundtrip: "pickle_roundtrip object_pickle"
  by (simp add: pickle_roundtrip_def object_pickle_def)

text \<open>
  Claim C5. With a \<open>pickle\<close> that reads back what it dumped, loading the file that
  \<open>save\<close> wrote for a vocabulary \<open>V\<close>, into a vocabulary object of the same file
  name, succeeds and yields the tables of \<open>V\<close> (the same \<open>id2unit\<close> and
  \<open>unit2id\<close> mappings, hence the same size), and saving the loaded vocabulary again
  leaves the file system as it was: the file holds the same bytes.
\<close>

theorem save_load_roundtrip:
  assumes "pickle_roundtrip P" and "filename W = filename V"
  shows "load P W (save P V fs) = Inr (W\<lparr>id2unit_tbl := id2unit_tbl V, unit2id_tbl := unit2id_tbl V\<rparr>)
    \<and> vocab_len (W\<lparr>id2unit_tbl := id2unit_tbl V, unit2id_tbl := unit2id_tbl V\<rparr>) = vocab_len V
    \<and> save P (W\<lparr>id2unit_tbl := id2unit_tbl V, unit2id_tbl := unit2id_tbl V\<rparr>) (save P V fs)
        = save P V fs"
proof -
  from assms(1) have p: "\<And>x rest. pload P (pdump P x @ rest) = Some (x, rest)"
    by (simp add: pickle_roundtrip_def)
  have "pload P (pdump P (PyDict (unit2id_tbl V))) = Some (PyDict (unit2id_tbl V), [])"
    using p [of "PyDict (unit2id_tbl V)" "[]"] by simp
  with p assms(2) have "load P W (save P V fs)
      = Inr (W\<lparr>id2unit_tbl := id2unit_tbl V, unit2id_tbl := unit2id_tbl V\<rparr>)"
    by (simp add: load_def save_def)
  moreover have "save P (W\<lparr>id2unit_tbl := id2unit_tbl V, unit2id_tbl := unit2id_tbl V\<rparr>) (save P V fs)
        = save P V fs"
    using assms(2) by (simp add: save_def)
  ultimately show ?thesis by (simp add: vocab_len_def)
qed

theorem save_load_roundtrip_witness:
  "pickle_roundtrip object_pickle
   \<and> save object_pickle example_vocab (\<lambda>f. None) ''en.vocab''
       = Some [PyList (id2unit_tbl example_vocab), PyDict (unit2id_tbl example_vocab)]
   \<and> load object_pickle \<lparr>filename = ''en.vocab'', id2unit_tbl = [], unit2id_tbl = []\<rparr>
       (save object_pickle example_vocab (\<lambda>f. None)) = Inr example_vocab
   \<and> save object_pickle example_vocab (save object_pickle example_vocab (\<lambda>f. None))
       = save object_pickle example_vocab (\<lambda>f. None)"
proof -
  let ?W = "\<lparr>filename = ''en.vocab'', id2unit_tbl = [], unit2id_tbl = []\<rparr>"
  have f: "filename ?W = filename example_vocab" by (simp add: example_vocab_def)
  have e: "?W\<lparr>id2unit_tbl := id2unit_tbl example_vocab, unit2id_tbl := unit2id_tbl example_vocab\<rparr>
      = example_vocab" by (simp add: example_vocab_def)
  have s: "save object_pickle example_vocab (\<lambda>f. None) ''en.vocab''
       = Some [PyList (id2unit_tbl example_vocab), PyDict (unit2id_tbl example_vocab)]"
    by (simp add: save_def object_pickle_def example_vocab_def)
  from save_load_roundtrip [OF object_pickle_roundtrip f, of "\<lambda>f. None"] s object_pickle_roundtrip
  show ?thesis unfolding e by simp
qed

section \<open>Properties of DataLoader\<close>

lemma sort_all_props:
  fixes len :: "'a \<Rightarrow> nat"
  assumes "sort_all batch (map len batch) = (sorted_batch, oidx)"
  shows "mset oidx = mset [0 ..< length batch]"
    and "sorted_batch = map ((!) batch) oidx"
    and "sorted_wrt (\<lambda>a b. len b \<le> len a) sorted_batch"
    and "filter (\<lambda>x. len x = k) sorted_batch = filter (\<lambda>x. len x = k) batch"
    and "mset sorted_batch = mset batch"
proof -
  let ?n = "length batch"
  let ?key = "\<lambda>(l, i, x). - int l"
  let ?row = "\<lambda>(l :: nat, i :: nat, x :: 'a). x"
  let ?idx = "\<lambda>(l :: nat, i :: nat, x :: 'a). i"
  define z where "z = zip (map len batch) (zip [0 ..< ?n] batch)"
  define s where "s = sort_key ?key z"
  from assms have sb: "sorted_batch = map ?row s" and oi: "oidx = map ?idx s"
    by (auto simp: sort_all_def s_def z_def Let_def)
  have z_eq: "z = map (\<lambda>i. (len (batch ! i), i, batch ! i)) [0 ..< ?n]"
    by (rule nth_equalityI) (simp_all add: z_def)
  have zrow: "map ?row z = batch"
    unfolding z_eq by (simp add: o_def map_nth)
  have zidx: "map ?idx z = [0 ..< ?n]"
    unfolding z_eq by (simp add: o_def)
  have ms: "mset s = mset z" by (simp add: s_def)
  have el: "l = len x \<and> x = batch ! i" if "(l, i, x) \<in> set s" for l i x
  proof -
    from that have "(l, i, x) \<in> set z" by (simp add: s_def)
    then show ?thesis unfolding z_eq by auto
  qed
  show "mset oidx = mset [0 ..< ?n]"
  proof -
    have "mset oidx = image_mset ?idx (mset s)" by (simp add: oi)
    also have "\<dots> = mset (map ?idx z)" by (simp add: ms)
    finally show ?thesis by (simp add: zidx)
  qed
  show "sorted_batch = map ((!) batch) oidx"
    unfolding sb oi using el by (auto simp: o_def)
  show "sorted_wrt (\<lambda>a b. len b \<le> len a) sorted_batch"
  proof -
    have "sorted (map ?key s)" unfolding s_def by (rule sorted_sort_key)
    then have "sorted_wrt (\<lambda>e f. ?key e \<le> ?key f) s" by (simp add: sorted_map)
    then have "sorted_wrt (\<lambda>e f. len (?row f) \<le> len (?row e)) s"
    proof (rule sorted_wrt_mono_rel [rotated])
      fix e f assume a: "e \<in> set s" "f \<in> set s" "?key e \<le> ?key f"
      obtain l i x where e: "e = (l, i, x)" by (cases e)
      obtain l' i' x' where f: "f = (l', i', x')" by (cases f)
      from a e f el [of l i x] el [of l' i' x']
      show "len (?row f) \<le> len (?row e)" by simp
    qed
    then show ?thesis by (simp add: sb sorted_wrt_map)
  qed
  show "filter (\<lambda>x. len x = k) sorted_batch = filter (\<lambda>x. len x = k) batch"
  proof -
    have c: "filter ((\<lambda>x. len x = k) \<circ> ?row) s = filter (\<lambda>e. ?key e = - int k) s"
    proof (rule filter_cong)
      fix e assume a: "e \<in> set s"
      obtain l i x where e: "e = (l, i, x)" by (cases e)
      from a e el [of l i x] show "((\<lambda>x. len x = k) \<circ> ?row) e = (?key e = - int k)" by auto
    qed simp
    have c': "filter ((\<lambda>x. len x = k) \<circ> ?row) z = filter (\<lambda>e. ?key e = - int k) z"
      by (rule filter_cong) (auto simp: z_eq)
    have st: "filter (\<lambda>e. ?key e = - int k) s = filter (\<lambda>e. ?key e = - int k) z"
      unfolding s_def by (rule sort_key_stable)
    have "filter (\<lambda>x. len x = k) sorted_batch = map ?row (filter ((\<lambda>x. len x = k) \<circ> ?row) s)"
      by (simp add: sb filter_map)
    also have "\<dots> = map ?row (filter (\<lambda>e. ?key e = - int k) z)"
      by (simp only: c st)
    also have "\<dots> = filter (\<lambda>x. len x = k) (map ?row z)"
      unfolding c' [symmetric] by (simp add: filter_map)
    finally show ?thesis by (simp add: zrow)
  qed
  show "mset sorted_batch = mset batch"
  proof -
    have "mset sorted_batch = image_mset ?row (mset s)" by (simp add: sb)
    also have "\<dots> = mset (map ?row z)" by (simp add: ms)
    finally show ?thesis by (simp add: zrow)
  qed
qed

lemma max_length_ge: "s \<in> set rows \<Longrightarrow> length s \<le> max_length rows"
  by (induction rows) (auto simp: max_length_def)

lemma max_length_map_length: "max_length rows = foldr max (map length rows) 0"
  by (induction rows) (simp_all add: max_length_def)

lemma max_length_cong:
  "map length xs = map length ys \<Longrightarrow> max_length xs = max_length ys"
  by (simp add: max_length_map_length)

lemma size1_get_long_tensor:
  assumes "rows \<noteq> []"
  shows "size1 (get_long_tensor rows n) = max_length rows"
proof -
  from assms obtain a list where r: "rows = a # list" by (cases rows) auto
  then have "length a \<le> max_length rows" by (simp add: max_length_ge)
  then show ?thesis by (simp add: r size1_def get_long_tensor_def)
qed

lemma filter_eq_single: "distinct xs \<Longrightarrow> c \<in> set xs \<Longrightarrow> filter (\<lambda>i. c = i) xs = [c]"
  by (induction xs) (auto simp: filter_empty_conv)

lemma unsort_restores:
  assumes "mset oidx = mset [0 ..< length batch]"
  shows "unsort (map ((!) batch) oidx) oidx = batch"
proof -
  let ?n = "length batch"
  let ?g = "\<lambda>i. (i, batch ! i)"
  have z: "zip oidx (map ((!) batch) oidx) = map ?g oidx"
    by (simp add: zip_map2 zip_same_conv_map)
  from assms have d: "distinct oidx" using mset_eq_imp_distinct_iff [of oidx "[0 ..< ?n]"] by simp
  from assms have s: "set oidx = set [0 ..< ?n]" by (rule mset_eq_setD)
  have "sort_key fst (map ?g oidx) = map ?g [0 ..< ?n]"
  proof (rule properties_for_sort_key)
    show "mset (map ?g [0 ..< ?n]) = mset (map ?g oidx)"
      using assms by (metis mset_map)
  next
    fix k assume "k \<in> set (map ?g [0 ..< ?n])"
    then have k: "fst k \<in> set [0 ..< ?n]" by auto
    have "filter (\<lambda>i. fst k = i) [0 ..< ?n] = [fst k]"
      using k by (intro filter_eq_single) simp_all
    moreover have "filter (\<lambda>i. fst k = i) oidx = [fst k]"
      using k d s by (intro filter_eq_single) simp_all
    ultimately show "filter (\<lambda>x. fst k = fst x) (map ?g [0 ..< ?n])
        = filter (\<lambda>x. fst k = fst x) (map ?g oidx)"
      by (simp add: filter_map o_def)
  next
    show "sorted (map fst (map ?g [0 ..< ?n]))" by (simp add: o_def)
  qed
  then have "unsort (map ((!) batch) oidx) oidx = map snd (map ?g [0 ..< ?n])"
    by (simp add: unsort_def z)
  also have "\<dots> = batch" by (simp add: o_def map_nth)
  finally show ?thesis .
qed

lemma preprocess_target_lengths:
  "e \<in> set (preprocess c edit_id data vocab pos_vocab) \<Longrightarrow> length (tgt_in e) = length (tgt_out e)"
  by (auto simp: preprocess_def map_to_ids_def)

lemma list_comp_getitem_subset:
  "list_comp (\<lambda>i. list_getitem d (int i)) idx = Inr ys \<Longrightarrow> set ys \<subseteq> set d"
proof (induction idx arbitrary: ys)
  case Nil
  then show ?case by simp
next
  case (Cons i idx)
  then show ?case
    by (auto simp: list_getitem_def split: sum.splits if_splits)
qed

lemma chunks_nonempty_subset:
  "ch \<in> set (chunks n xs) \<Longrightarrow> ch \<noteq> [] \<and> set ch \<subseteq> set xs"
proof (induction n xs rule: chunks.induct)
  case (1 n xs)
  show ?case
  proof (cases "n = 0 \<or> xs = []")
    case True
    with "1.prems" show ?thesis by (simp add: chunks.simps [of n xs])
  next
    case False
    with "1.prems" have "ch = take n xs \<or> ch \<in> set (chunks n (drop n xs))"
      by (simp add: chunks.simps [of n xs])
    then show ?thesis
    proof
      assume "ch = take n xs"
      with False show ?thesis by (auto dest: in_set_takeD)
    next
      assume "ch \<in> set (chunks n (drop n xs))"
      with "1.IH" [OF False] show ?thesis by (auto dest: in_set_dropD)
    qed
  qed
qed

lemma DataLoader_init_chunks:
  assumes "DataLoader_init c edit_id bs shuffled data vocab pos_vocab = Inr L"
    and "ch \<in> set L"
  shows "ch \<noteq> [] \<and> (\<forall>e \<in> set ch. length (tgt_in e) = length (tgt_out e))"
proof -
  let ?d = "preprocess c edit_id data vocab pos_vocab"
  from assms(1) obtain d' where d': "set d' \<subseteq> set ?d" and L: "L = chunks bs d'"
    by (auto simp: DataLoader_init_def chunk_data_def Let_def
             split: sum.splits option.splits if_splits dest: list_comp_getitem_subset)
  from assms(2) L have "ch \<noteq> [] \<and> set ch \<subseteq> set d'" by (simp add: chunks_nonempty_subset)
  with d' show ?thesis using preprocess_target_lengths by blast
qed

lemma getitem_succeeds:
  assumes "0 \<le> key" and "key < int (length L)" and "L ! nat key \<noteq> []"
    and "\<forall>e \<in> set (L ! nat key). length (tgt_in e) = length (tgt_out e)"
  shows "\<exists>B. getitem L key = Inr B \<and> size1 (tgt_in_t B) = size1 (tgt_out_t B)"
proof -
  let ?b = "L ! nat key"
  obtain sb oidx where s: "sort_all ?b (map (\<lambda>x. length (src x)) ?b) = (sb, oidx)"
    by (cases "sort_all ?b (map (\<lambda>x. length (src x)) ?b)")
  from sort_all_props(5) [OF s] have m: "mset sb = mset ?b" .
  then have "set sb = set ?b" by (rule mset_eq_setD)
  with assms(4) have "map length (map tgt_in sb) = map length (map tgt_out sb)" by simp
  then have w: "max_length (map tgt_in sb) = max_length (map tgt_out sb)"
    by (rule max_length_cong)
  from m assms(3) have ne: "sb \<noteq> []" by auto
  then have "size1 (get_long_tensor (map tgt_in sb) (length ?b))
      = size1 (get_long_tensor (map tgt_out sb) (length ?b))"
    by (simp add: size1_get_long_tensor w)
  with assms(1-3) s show ?thesis by (simp add: getitem_def Let_def)
qed

lemma toy_init:
  "DataLoader_init toy_constant (\<lambda>w l. 0) 3 None toy_data toy_vocab toy_pos_vocab = Inr toy_chunks"
  by code_simp

lemma toy_getitem: "getitem toy_chunks 0 = Inr toy_batch"
  by code_simp

lemma list_comp_set:
  "list_comp f xs = Inr ys \<Longrightarrow> y \<in> set ys \<Longrightarrow> \<exists>x \<in> set xs. f x = Inr y"
proof (induction xs arbitrary: ys)
  case Nil
  then show ?case by simp
next
  case (Cons x xs)
  then show ?case by (auto split: sum.splits)
qed

lemma mwt_example_target_lengths:
  "mwt_example c eval vocab d = Inr e \<Longrightarrow> length (tgt_in e) = length (tgt_out e)"
  by (auto simp: mwt_example_def map_to_ids_def Let_def split: sum.splits if_splits)

text \<open>
  Claim C8. For the chunks that the lemma loader builds from the output of
  \<open>preprocess\<close> (shuffled or not), \<open>__getitem__\<close> at every index in range returns a
  batch: the assertion on the widths of the padded target-input and target-output
  tensors does not fail, and the two widths are equal. Every example has
  \<open>tgt_in = SOS + tgt\<close> and \<open>tgt_out = tgt + EOS\<close>, of equal length, so the longest
  sequences of the two fields have the same length.
\<close>

theorem target_widths_agree:
  assumes "DataLoader_init c edit_id bs shuffled data vocab pos_vocab = Inr L"
    and "0 \<le> key" and "key < int (length L)"
  shows "\<exists>B. getitem L key = Inr B \<and> size1 (tgt_in_t B) = size1 (tgt_out_t B)"
proof -
  from assms(2,3) have "L ! nat key \<in> set L" by simp
  from DataLoader_init_chunks [OF assms(1) this] assms(2,3) show ?thesis
    by (intro getitem_succeeds) simp_all
qed

theorem target_widths_agree_witness:
  "DataLoader_init toy_constant (\<lambda>w l. 0) 3 None toy_data toy_vocab toy_pos_vocab = Inr toy_chunks
   \<and> (0 :: int) \<le> 0 \<and> 0 < int (length toy_chunks)
   \<and> (\<exists>B. getitem toy_chunks 0 = Inr B \<and> size1 (tgt_in_t B) = size1 (tgt_out_t B))
   \<and> getitem toy_chunks 0 = Inr toy_batch
   \<and> size1 (tgt_in_t toy_batch) = 4 \<and> size1 (tgt_out_t toy_batch) = 4"
proof -
  have k: "(0 :: int) \<le> 0" "0 < int (length toy_chunks)" by (simp_all add: toy_chunks_def)
  have w: "size1 (tgt_in_t toy_batch) = 4" "size1 (tgt_out_t toy_batch) = 4"
    by (simp_all add: toy_batch_def size1_def)
  from target_widths_agree [OF toy_init k] toy_init toy_getitem k w show ?thesis by (intro conjI)
qed

text \<open>The same holds for the multi-word loader, in training and in evaluation mode.\<close>

lemma mwt_target_widths_agree:
  assumes "mwt_preprocess c eval data vocab = Inr d" and "chunk_data bs d = Inr L"
    and "0 \<le> key" and "key < int (length L)"
  shows "\<exists>B. mwt_getitem L key = Inr B \<and> size1 (tgt_in_t B) = size1 (tgt_out_t B)"
proof -
  let ?b = "L ! nat key"
  from assms(2) have L: "L = chunks bs d" by (simp add: chunk_data_def split: if_splits)
  from assms(3,4) have "?b \<in> set L" by simp
  with L have b: "?b \<noteq> [] \<and> set ?b \<subseteq> set d" by (simp add: chunks_nonempty_subset)
  have t: "length (tgt_in e) = length (tgt_out e)" if "e \<in> set ?b" for e
  proof -
    from that b have "e \<in> set d" by blast
    with assms(1) obtain x where "mwt_example c eval vocab x = Inr e"
      unfolding mwt_preprocess_def by (blast dest: list_comp_set)
    then show ?thesis by (rule mwt_example_target_lengths)
  qed
  obtain sb oidx where s: "sort_all ?b (map (\<lambda>x. length (src x)) ?b) = (sb, oidx)"
    by (cases "sort_all ?b (map (\<lambda>x. length (src x)) ?b)")
  from sort_all_props(5) [OF s] have m: "mset sb = mset ?b" .
  then have "set sb = set ?b" by (rule mset_eq_setD)
  with t have "map length (map tgt_in sb) = map length (map tgt_out sb)" by simp
  then have w: "max_length (map tgt_in sb) = max_length (map tgt_out sb)"
    by (rule max_length_cong)
  from m b have ne: "sb \<noteq> []" by auto
  then have "size1 (get_long_tensor (map tgt_in sb) (length ?b))
      = size1 (get_long_tensor (map tgt_out sb) (length ?b))"
    by (simp add: size1_get_long_tensor w)
  with assms(3,4) b s show ?thesis by (simp add: mwt_getitem_def Let_def)
qed

text \<open>
  Claim C6. A batch that \<open>__getitem__\<close> returns holds the examples of the chunk in an
  order \<open>sb\<close> of non-increasing source length, equal lengths keeping the order they
  had in the chunk; \<open>orig_idx\<close> is a permutation of the positions of the chunk (a
  bijection on \<open>[0, chunk_size)\<close>) that maps each sorted position to the position the
  example had in the chunk, and putting every sorted example back at the position
  \<open>orig_idx\<close> names for it gives the chunk in its order before sorting.
\<close>

theorem getitem_sorted_orig_idx:
  assumes "getitem L key = Inr B"
  shows "\<exists>sb. src_t B = get_long_tensor (map src sb) (length (L ! nat key))
     \<and> tgt_in_t B = get_long_tensor (map tgt_in sb) (length (L ! nat key))
     \<and> tgt_out_t B = get_long_tensor (map tgt_out sb) (length (L ! nat key))
     \<and> pos_t B = map pos sb \<and> edits_t B = map edit_type sb
     \<and> sorted_wrt (\<lambda>a b. length (src b) \<le> length (src a)) sb
     \<and> (\<forall>k. filter (\<lambda>x. length (src x) = k) sb
              = filter (\<lambda>x. length (src x) = k) (L ! nat key))
     \<and> distinct (orig_idx B) \<and> set (orig_idx B) = {0 ..< length (L ! nat key)}
     \<and> length (orig_idx B) = length (L ! nat key)
     \<and> sb = map ((!) (L ! nat key)) (orig_idx B)
     \<and> unsort sb (orig_idx B) = L ! nat key"
proof -
  let ?b = "L ! nat key"
  let ?len = "\<lambda>x :: lemma_example. length (src x)"
  obtain sb oidx where s: "sort_all ?b (map ?len ?b) = (sb, oidx)"
    by (cases "sort_all ?b (map ?len ?b)")
  note P = sort_all_props [OF s]
  from assms s have B: "src_t B = get_long_tensor (map src sb) (length ?b)"
    "tgt_in_t B = get_long_tensor (map tgt_in sb) (length ?b)"
    "tgt_out_t B = get_long_tensor (map tgt_out sb) (length ?b)"
    "pos_t B = map pos sb" "edits_t B = map edit_type sb" "orig_idx B = oidx"
    by (auto simp: getitem_def Let_def split: if_splits)
  from P(1) have d: "distinct oidx" using mset_eq_imp_distinct_iff [of oidx "[0 ..< length ?b]"] by simp
  from P(1) have st: "set oidx = {0 ..< length ?b}" using mset_eq_setD [of oidx "[0 ..< length ?b]"] by simp
  from P(1) have l: "length oidx = length ?b" using mset_eq_length [of oidx "[0 ..< length ?b]"] by simp
  from P(1) have u: "unsort sb oidx = ?b" unfolding P(2) by (rule unsort_restores)
  have f: "\<forall>k. filter (\<lambda>x. ?len x = k) sb = filter (\<lambda>x. ?len x = k) ?b"
    using P(4) by simp
  show ?thesis
    apply (rule exI [of _ sb])
    unfolding B using P(2) P(3) f d st l u by (intro conjI refl)
qed

theorem getitem_sorted_orig_idx_witness:
  "getitem toy_chunks 0 = Inr toy_batch
   \<and> map (\<lambda>x. length (src x)) (toy_chunks ! 0) = [5, 3, 4]
   \<and> orig_idx toy_batch = [0, 2, 1]
   \<and> unsort (map ((!) (toy_chunks ! 0)) [0, 2, 1]) [0, 2, 1] = toy_chunks ! 0
   \<and> (\<exists>sb. src_t toy_batch = get_long_tensor (map src sb) 3
          \<and> map (\<lambda>x. length (src x)) sb = [5, 4, 3]
          \<and> sb = map ((!) (toy_chunks ! 0)) (orig_idx toy_batch)
          \<and> unsort sb (orig_idx toy_batch) = toy_chunks ! 0)"
proof -
  have o: "orig_idx toy_batch = [0, 2, 1]" by (simp add: toy_batch_def)
  have l: "map (\<lambda>x. length (src x)) (toy_chunks ! 0) = [5, 3, 4]" by (simp add: toy_chunks_def)
  have n: "length (toy_chunks ! nat 0) = 3" by (simp add: toy_chunks_def)
  from getitem_sorted_orig_idx [OF toy_getitem] obtain sb where
    sb: "src_t toy_batch = get_long_tensor (map src sb) (length (toy_chunks ! nat 0))"
      "sb = map ((!) (toy_chunks ! nat 0)) (orig_idx toy_batch)"
      "unsort sb (orig_idx toy_batch) = toy_chunks ! nat 0"
    by blast
  from sb(2) have m: "map (\<lambda>x. length (src x)) sb = [5, 4, 3]"
    by (simp add: o toy_chunks_def)
  from sb(3) have u: "unsort (map ((!) (toy_chunks ! 0)) [0, 2, 1]) [0, 2, 1] = toy_chunks ! 0"
    unfolding sb(2) o by simp
  have "\<exists>sb. src_t toy_batch = get_long_tensor (map src sb) 3
          \<and> map (\<lambda>x. length (src x)) sb = [5, 4, 3]
          \<and> sb = map ((!) (toy_chunks ! 0)) (orig_idx toy_batch)
          \<and> unsort sb (orig_idx toy_batch) = toy_chunks ! 0"
    using sb m n by (intro exI [of _ sb]) simp
  with toy_getitem l o u show ?thesis by (intro conjI)
qed

text \<open>The same holds for the multi-word loader.\<close>

lemma mwt_getitem_sorted_orig_idx:
  assumes "mwt_getitem L key = Inr B"
  shows "\<exists>sb. src_t B = get_long_tensor (map src sb) (length (L ! nat key))
     \<and> tgt_in_t B = get_long_tensor (map tgt_in sb) (length (L ! nat key))
     \<and> tgt_out_t B = get_long_tensor (map tgt_out sb) (length (L ! nat key))
     \<and> sorted_wrt (\<lambda>a b. length (src b) \<le> length (src a)) sb
     \<and> (\<forall>k. filter (\<lambda>x. length (src x) = k) sb
              = filter (\<lambda>x. length (src x) = k) (L ! nat key))
     \<and> distinct (orig_idx B) \<and> set (orig_idx B) = {0 ..< length (L ! nat key)}
     \<and> length (orig_idx B) = length (L ! nat key)
     \<and> sb = map ((!) (L ! nat key)) (orig_idx B)
     \<and> unsort sb (orig_idx B) = L ! nat key"
proof -
  let ?b = "L ! nat key"
  let ?len = "\<lambda>x :: example. length (src x)"
  obtain sb oidx where s: "sort_all ?b (map ?len ?b) = (sb, oidx)"
    by (cases "sort_all ?b (map ?len ?b)")
  note P = sort_all_props [OF s]
  from assms s have B: "src_t B = get_long_tensor (map src sb) (length ?b)"
    "tgt_in_t B = get_long_tensor (map tgt_in sb) (length ?b)"
    "tgt_out_t B = get_long_tensor (map tgt_out sb) (length ?b)"
    "orig_idx B = oidx"
    by (auto simp: mwt_getitem_def Let_def split: if_splits)
  from P(1) have d: "distinct oidx" using mset_eq_imp_distinct_iff [of oidx "[0 ..< length ?b]"] by simp
  from P(1) have st: "set oidx = {0 ..< length ?b}" using mset_eq_setD [of oidx "[0 ..< length ?b]"] by simp
  from P(1) have l: "length oidx = length ?b" using mset_eq_length [of oidx "[0 ..< length ?b]"] by simp
  from P(1) have u: "unsort sb oidx = ?b" unfolding P(2) by (rule unsort_restores)
  have f: "\<forall>k. filter (\<lambda>x. ?len x = k) sb = filter (\<lambda>x. ?len x = k) ?b"
    using P(4) by simp
  show ?thesis
    apply (rule exI [of _ sb])
    unfolding B using P(2) P(3) f d st l u by (intro conjI refl)
qed

end
